theory Spec2Isabelle
  imports Main
begin

section \<open>Data model\<close>

text \<open>
  Modelled from the spec: the type \<open>IBMiEvent\<close> is imported from \<open>./typings\<close>, whose
  declaration of it is not part of the sources at hand. The spec describes an event kind as
  one of a closed enumeration: \<open>connected\<close>, \<open>disconnected\<close>, plus extension-defined
  kinds. It is used only as a lookup key.
\<close>

datatype IBMiEvent = connected | disconnected | extension_event string

text \<open>
  A JavaScript \<open>Function\<close> value is a reference to a function object. The registry stores
  such references; what a function does when called is looked up in a table of function
  objects (\<open>funcs\<close> below). Of a function's behaviour the model keeps what the registry can
  observe: its \<open>name\<close> property, the calls it makes to \<open>subscribe\<close> and \<open>onEvent\<close>
  while it runs, and whether the call ends by throwing.
\<close>

type_synonym fref = nat

datatype call =
    CallSubscribe string IBMiEvent string fref "bool option"
  | CallOnEvent IBMiEvent fref

record function_object =
  fname :: string
  calls :: "call list"
  raises :: bool

type_synonym funcs = "fref \<Rightarrow> function_object"

text \<open>\<open>type IBMiEventSubscription = { func: Function, transient?: boolean }\<close>\<close>

record IBMiEventSubscription =
  func :: fref
  transient :: "bool option"

text \<open>
  \<open>type SubscriptionMap = Map<string, IBMiEventSubscription>\<close>. An ECMAScript \<open>Map\<close>
  keeps its entries in a list (\<open>[[MapData]]\<close>) in insertion order; \<open>delete\<close> empties the
  entry in place and leaves the slot in the list, so that a running iterator keeps its
  position. \<open>None\<close> is such an emptied slot.
\<close>

type_synonym SubscriptionMap = "(string \<times> IBMiEventSubscription) option list"

text \<open>\<open>Map.prototype.set\<close>: the value of an existing key is replaced in place, a new key
  is appended.\<close>

fun map_set :: "SubscriptionMap \<Rightarrow> string \<Rightarrow> IBMiEventSubscription \<Rightarrow> SubscriptionMap" where
  "map_set [] k v = [Some (k, v)]"
| "map_set (None # m) k v = None # map_set m k v"
| "map_set (Some (k', v') # m) k v =
     (if k' = k then Some (k, v) # m else Some (k', v') # map_set m k v)"

text \<open>\<open>Map.prototype.delete\<close>: the entry with the key, if any, is emptied.\<close>

fun map_delete :: "SubscriptionMap \<Rightarrow> string \<Rightarrow> SubscriptionMap" where
  "map_delete [] k = []"
| "map_delete (None # m) k = None # map_delete m k"
| "map_delete (Some (k', v') # m) k =
     (if k' = k then None # m else Some (k', v') # map_delete m k)"

text \<open>The entries an iteration started now would visit, in order.\<close>

fun entries :: "SubscriptionMap \<Rightarrow> (string \<times> IBMiEventSubscription) list" where
  "entries [] = []"
| "entries (None # m) = entries m"
| "entries (Some e # m) = e # entries m"

text \<open>
  Modelled from the spec: the class \<open>IBMi\<close> (the connection handle) is imported from
  \<open>./api/IBMi\<close> and is not part of the sources at hand. The orchestrator reads its
  \<open>currentConnectionName\<close> and calls \<open>dispose()\<close>, \<open>setDisconnectedCallback\<close> and
  \<open>connect\<close> on it. A handle is a reference (\<open>hid\<close>) together with the connection name
  it reports.
\<close>

record IBMi =
  hid :: nat
  currentConnectionName :: string

text \<open>
  Everything the code does to its collaborators (console, commands, storage, the handles,
  the event emitter, the editor window) is appended to a trace, in program order, and so
  is every assignment to \<open>this.connection\<close> (\<open>AssignConnection\<close>).
\<close>

datatype effect =
    ConsoleTime string
  | ConsoleTimeEnd string
  | ConsoleTimeEvent IBMiEvent
  | ConsoleTimeEndEvent IBMiEvent
  | ConsoleError IBMiEvent string
  | ConsoleWarn
  | ConsoleLog nat
  | Invoke fref
  | Dispose nat
  | End nat
  | SetDisconnectedCallback nat
  | SetConnectionName string
  | SetLastConnection string
  | Fire IBMiEvent
  | ExecuteCommand string
  | SetContext string bool
  | ShowErrorMessage string
  | ShowWarningMessage string
  | ShowTextDocument nat
  | OutputClear
  | AssignConnection "nat option"

text \<open>
  The fields of \<open>class Instance\<close> that the lifecycle and the registry use, the state of
  the collaborators they write to (\<open>storageConnectionName\<close> for \<open>this.storage\<close>,
  \<open>lastConnection\<close> for \<open>IBMi.GlobalStorage\<close>, \<open>disposed\<close> for the handles), and the
  trace.
\<close>

record Instance =
  connection :: "IBMi option"
  subscribers :: "IBMiEvent \<Rightarrow> SubscriptionMap option"
  deprecationCount :: nat
  storageConnectionName :: string
  lastConnection :: string
  disposed :: "nat set"
  trace :: "effect list"

definition new_Instance :: Instance where
  "new_Instance = \<lparr> connection = None, subscribers = (\<lambda>_. None), deprecationCount = 0,
     storageConnectionName = [], lastConnection = [], disposed = {}, trace = [] \<rparr>"

definition emit :: "effect \<Rightarrow> Instance \<Rightarrow> Instance" where
  "emit e s = s\<lparr>trace := trace s @ [e]\<rparr>"

section \<open>The subscription registry\<close>

text \<open>
  \<open>getSubscribers(event)\<close> returns the event's map, creating and storing an empty one
  when the event has none. The map is returned by reference: the model returns the
  updated instance, and every later read or write goes through the instance by event.
\<close>

definition getSubscribers :: "IBMiEvent \<Rightarrow> Instance \<Rightarrow> Instance" where
  "getSubscribers event s =
     (case subscribers s event of
        Some m \<Rightarrow> s
      | None \<Rightarrow> s\<lparr>subscribers := (subscribers s)(event \<mapsto> [])\<rparr>)"

definition eventSubscribers :: "Instance \<Rightarrow> IBMiEvent \<Rightarrow> SubscriptionMap" where
  "eventSubscribers s event = (case subscribers s event of Some m \<Rightarrow> m | None \<Rightarrow> [])"

definition set_subscriber ::
  "IBMiEvent \<Rightarrow> string \<Rightarrow> IBMiEventSubscription \<Rightarrow> Instance \<Rightarrow> Instance" where
  "set_subscriber event k v s =
     (let s1 = getSubscribers event s
      in s1\<lparr>subscribers := (subscribers s1)(event \<mapsto> map_set (eventSubscribers s1 event) k v)\<rparr>)"

definition delete_subscriber :: "IBMiEvent \<Rightarrow> string \<Rightarrow> Instance \<Rightarrow> Instance" where
  "delete_subscriber event k s =
     s\<lparr>subscribers := (subscribers s)(event \<mapsto> map_delete (eventSubscribers s event) k)\<rparr>"

text \<open>The key \<open>`${context.extension.id} - ${name}`\<close>.\<close>

definition subscription_key :: "string \<Rightarrow> string \<Rightarrow> string" where
  "subscription_key extension_id name = extension_id @ '' - '' @ name"

definition subscribe ::
  "string \<Rightarrow> IBMiEvent \<Rightarrow> string \<Rightarrow> fref \<Rightarrow> bool option \<Rightarrow> Instance \<Rightarrow> Instance" where
  "subscribe extension_id event name f tr s =
     set_subscriber event (subscription_key extension_id name) \<lparr>func = f, transient = tr\<rparr> s"

text \<open>Decimal digits of a number, as the template literal prints the counter. The
  counter is a JavaScript number that starts at 0 and grows by one per call of \<open>onEvent\<close>,
  each of which also adds an entry to a map; it stays far below \<open>2^53\<close>, where it is exact
  and printed in plain decimal digits.\<close>

fun string_of_nat :: "nat \<Rightarrow> string" where
  "string_of_nat n =
     (if n < 10 then [char_of (48 + n)]
      else string_of_nat (n div 10) @ [char_of (48 + n mod 10)])"

text \<open>The key \<open>`deprecated - ${func.name || "unknown"}_${this.deprecationCount++}`\<close>.\<close>

definition deprecated_key :: "string \<Rightarrow> nat \<Rightarrow> string" where
  "deprecated_key nm n =
     ''deprecated - '' @ (if nm = [] then ''unknown'' else nm) @ ''_'' @ string_of_nat n"

definition onEvent :: "funcs \<Rightarrow> IBMiEvent \<Rightarrow> fref \<Rightarrow> Instance \<Rightarrow> Instance" where
  "onEvent F event f s =
     (let s1 = set_subscriber event (deprecated_key (fname (F f)) (deprecationCount s))
                 \<lparr>func = f, transient = None\<rparr> s;
          s2 = s1\<lparr>deprecationCount := deprecationCount s + 1\<rparr>
      in emit ConsoleWarn s2)"

text \<open>Calling a function object: it makes its registry calls in order, then returns or
  throws. The result says whether it threw.\<close>

fun do_call :: "funcs \<Rightarrow> call \<Rightarrow> Instance \<Rightarrow> Instance" where
  "do_call F (CallSubscribe extension_id event name f tr) s = subscribe extension_id event name f tr s"
| "do_call F (CallOnEvent event f) s = onEvent F event f s"

definition invoke :: "funcs \<Rightarrow> fref \<Rightarrow> Instance \<Rightarrow> bool \<times> Instance" where
  "invoke F f s = (raises (F f), fold (do_call F) (calls (F f)) (emit (Invoke f) s))"

text \<open>
  The loop of \<open>processEvent\<close>: \<open>for (const [identity, callable] of
  eventSubscribers.entries())\<close>. The iterator holds an index into the map's entry list and
  reads the list anew at every step, so entries appended while the loop runs are visited
  and emptied slots are skipped. A function that registers a new entry each time it runs
  keeps the loop going for ever; the first argument bounds the number of steps, and
  \<open>None\<close> says the loop has not ended within the bound.
\<close>

fun processEvent_loop ::
  "nat \<Rightarrow> funcs \<Rightarrow> IBMiEvent \<Rightarrow> nat \<Rightarrow> Instance \<Rightarrow> Instance option" where
  "processEvent_loop 0 F event i s = None"
| "processEvent_loop (Suc n) F event i s =
     (let m = eventSubscribers s event in
      if length m \<le> i then Some s
      else case m ! i of
          None \<Rightarrow> processEvent_loop n F event (Suc i) s
        | Some (identity, callable) \<Rightarrow>
            (let s1 = emit (ConsoleTime identity) s;
                 (threw, s2) = invoke F (func callable) s1;
                 s3 = (if threw then emit (ConsoleError event identity) s2
                       else emit (ConsoleTimeEnd identity) s2);
                 s4 = (if transient callable = Some True
                       then delete_subscriber event identity s3 else s3)
             in processEvent_loop n F event (Suc i) s4))"

definition processEvent :: "nat \<Rightarrow> funcs \<Rightarrow> IBMiEvent \<Rightarrow> Instance \<Rightarrow> Instance option" where
  "processEvent n F event s =
     (case processEvent_loop n F event 0 (emit (ConsoleTimeEvent event) (getSubscribers event s)) of
        None \<Rightarrow> None
      | Some s' \<Rightarrow> Some (emit (ConsoleTimeEndEvent event) s'))"

text \<open>
  The body of the loop for one entry \<open>[identity, callable]\<close>: the \<open>try\<close>, \<open>catch\<close> and
  \<open>finally\<close> blocks. \<open>callable\<close> is the object that the iterator took from the map; the
  \<open>finally\<close> block reads the transient flag of that object and deletes by key.
\<close>

definition processEvent_body ::
  "funcs \<Rightarrow> IBMiEvent \<Rightarrow> string \<Rightarrow> IBMiEventSubscription \<Rightarrow> Instance \<Rightarrow> Instance" where
  "processEvent_body F event identity callable s =
     (let s1 = emit (ConsoleTime identity) s;
          (threw, s2) = invoke F (func callable) s1;
          s3 = (if threw then emit (ConsoleError event identity) s2
                else emit (ConsoleTimeEnd identity) s2)
      in if transient callable = Some True then delete_subscriber event identity s3 else s3)"

section \<open>The connection lifecycle\<close>

text \<open>
  Modelled from the spec: \<open>ConnectionResult\<close> is declared in \<open>./api/IBMi\<close>, which is
  not part of the sources at hand. The spec gives it a boolean \<open>success\<close> and an optional
  diagnostic detail; the orchestrator reads \<open>success\<close> only.
\<close>

record ConnectionResult =
  success :: bool
  error :: "string option"

text \<open>\<open>interface ConnectionOptions\<close>, reduced to the field the retry loop reads. An
  optional boolean is truthy when it is present and \<open>true\<close>.\<close>

record ConnectionOptions =
  reconnecting :: "bool option"

text \<open>
  What one call of \<open>connection.connect(...)\<close> does is decided outside the sources at hand
  (network, credentials, the transport): it returns a result or throws. Together with the
  answer the user gives to the \<open>Could not reconnect\<close> prompt, should it be shown
  (\<open>True\<close> for \<open>Yes\<close>), this is the input of one round of the retry loop.
\<close>

datatype attempt = Returns ConnectionResult | Throws string

text \<open>
  Modelled from the spec: \<open>IBMi.dispose()\<close>. The spec says that it never raises and that
  disposing an already disposed handle changes nothing; the model records the call and
  marks the handle disposed.
\<close>

definition dispose :: "IBMi \<Rightarrow> Instance \<Rightarrow> Instance" where
  "dispose c s = emit (Dispose (hid c)) (s\<lparr>disposed := insert (hid c) (disposed s)\<rparr>)"

text \<open>
  \<open>fire(event)\<close> hands the event to the \<open>vscode.EventEmitter\<close>. The emitter calls its
  listener, which the constructor registered as \<open>e => this.processEvent(e)\<close>; the promise
  of that call is not awaited by the caller of \<open>fire\<close>.
\<close>

definition fire :: "IBMiEvent \<Rightarrow> Instance \<Rightarrow> Instance" where
  "fire event s = emit (Fire event) s"

definition setConnection :: "IBMi option \<Rightarrow> Instance \<Rightarrow> Instance" where
  "setConnection conn s =
     (let s1 = (case connection s of Some old \<Rightarrow> dispose old s | None \<Rightarrow> s);
          s2 = (case conn of
                  Some c \<Rightarrow>
                    (let s3 = emit (SetDisconnectedCallback (hid c)) s1;
                         s4 = emit (AssignConnection (Some (hid c))) (s3\<lparr>connection := Some c\<rparr>);
                         s5 = emit (SetConnectionName (currentConnectionName c))
                                (s4\<lparr>storageConnectionName := currentConnectionName c\<rparr>);
                         s6 = emit (SetLastConnection (currentConnectionName c))
                                (s5\<lparr>lastConnection := currentConnectionName c\<rparr>)
                     in fire connected s6)
                | None \<Rightarrow>
                    emit (SetConnectionName [])
                      ((emit (AssignConnection None) (s1\<lparr>connection := None\<rparr>))
                         \<lparr>storageConnectionName := []\<rparr>))
      in emit (SetContext ''code-for-ibmi:connected'' (conn \<noteq> None)) s2)"

text \<open>What a call \<open>setConnection()\<close>, with no handle given, does after line 151 (the
  dispose of the current handle, if there is one): lines 166 to 170.\<close>

definition setConnection_resume :: "Instance \<Rightarrow> Instance" where
  "setConnection_resume s =
     emit (SetContext ''code-for-ibmi:connected'' False)
       (emit (SetConnectionName [])
          ((emit (AssignConnection None) (s\<lparr>connection := None\<rparr>))
             \<lparr>storageConnectionName := []\<rparr>))"



definition disconnect :: "Instance \<Rightarrow> Instance" where
  "disconnect s =
     (let s1 = setConnection None s;
          s2 = emit (ExecuteCommand ''code-for-ibmi.refreshObjectBrowser'') s1;
          s3 = emit (ExecuteCommand ''code-for-ibmi.refreshLibraryListView'') s2
      in emit (ExecuteCommand ''code-for-ibmi.refreshIFSBrowser'') s3)"


text \<open>
  The \<open>while (true)\<close> loop of \<open>connect\<close>, one round per element of the script. The loop
  ends only by a success, by a failure of a connect that is not a reconnect, or when the
  user declines to retry; \<open>None\<close> says that it is still running when the script ends.
\<close>

fun connect_loop ::
  "IBMi \<Rightarrow> bool option \<Rightarrow> (attempt \<times> bool) list \<Rightarrow> Instance
   \<Rightarrow> (ConnectionResult \<times> Instance) option" where
  "connect_loop conn rec [] s = None"
| "connect_loop conn rec ((a, yes) # script) s =
     (let result = (case a of Returns r \<Rightarrow> r
                            | Throws e \<Rightarrow> \<lparr>success = False, error = None\<rparr>)
      in if success result then Some (result, setConnection (Some conn) s)
         else
           (let s1 = disconnect s
            in if rec = Some True
               then (let s2 = emit (ShowWarningMessage ''Could not reconnect'') s1
                     in if yes then connect_loop conn (Some True) script s2
                        else Some (result, s2))
               else Some (result, s1)))"

text \<open>\<open>connect(options)\<close>; \<open>conn\<close> is the handle made by \<open>new IBMi()\<close>.\<close>

definition connect ::
  "IBMi \<Rightarrow> ConnectionOptions \<Rightarrow> (attempt \<times> bool) list \<Rightarrow> Instance
   \<Rightarrow> (ConnectionResult \<times> Instance) option" where
  "connect conn options script s =
     (case connect_loop conn (reconnecting options) script (emit OutputClear s) of
        None \<Rightarrow> None
      | Some (result, s') \<Rightarrow>
          Some (result, if success result = False then dispose conn s' else s'))"

definition getConnection :: "Instance \<Rightarrow> IBMi option" where
  "getConnection s = connection s"

subsection \<open>The guarded disconnect of \<open>instantiate.ts\<close>\<close>

text \<open>What the loop reads of a \<open>vscode.TextDocument\<close>.\<close>

record TextDocument =
  doc :: nat
  scheme :: string
  isClosed :: bool
  isDirty :: bool

text \<open>The loop over \<open>vscode.workspace.textDocuments\<close>, carrying \<open>doDisconnect\<close>.\<close>

fun check_documents :: "TextDocument list \<Rightarrow> bool \<Rightarrow> Instance \<Rightarrow> bool \<times> Instance" where
  "check_documents [] doDisconnect s = (doDisconnect, s)"
| "check_documents (document # documents) doDisconnect s =
     (let s0 = emit (ConsoleLog (doc document)) s
      in if \<not> isClosed document \<and> scheme document \<in> set [''member'', ''streamfile'']
         then if isDirty document
              then if doDisconnect
                   then check_documents documents False
                          (emit (ShowTextDocument (doc document))
                            (emit (ShowErrorMessage ''Cannot disconnect while files have not been saved.'') s0))
                   else check_documents documents doDisconnect s0
              else check_documents documents doDisconnect
                     (emit (ExecuteCommand ''workbench.action.closeActiveEditor'')
                       (emit (ShowTextDocument (doc document)) s0))
         else check_documents documents doDisconnect s0)"

text \<open>\<open>export async function disconnect(): Promise<boolean>\<close> of \<open>instantiate.ts\<close>.\<close>

definition instantiate_disconnect :: "TextDocument list \<Rightarrow> Instance \<Rightarrow> bool \<times> Instance" where
  "instantiate_disconnect documents s =
     (let (doDisconnect, s1) = check_documents documents True s
      in if doDisconnect
         then (case connection s1 of
                 Some c \<Rightarrow>
                   (doDisconnect,
                    emit (End (hid c)) (emit (AssignConnection None) (s1\<lparr>connection := None\<rparr>)))
               | None \<Rightarrow> (doDisconnect, s1))
         else (doDisconnect, s1))"

text \<open>An open document backed by the connection that has unsaved changes.\<close>

definition unsaved :: "TextDocument \<Rightarrow> bool" where
  "unsaved document =
     (\<not> isClosed document \<and> scheme document \<in> set [''member'', ''streamfile''] \<and> isDirty document)"

section \<open>Fires that overlap\<close>

text \<open>
  \<open>fire(event)\<close> returns when the emitter has called its listener, and the listener,
  \<open>processEvent\<close>, is an async function: its call runs up to the first \<open>await\<close>, that of
  \<open>callable.func()\<close> for the first entry, and returns; the run goes on when the awaited
  promise is settled, up to the next \<open>await\<close>, and so on to the end of the loop. Other
  code runs between two pieces of a run, among it further calls of \<open>fire\<close>, each of which
  starts a run of its own on the same map.

  The functions are taken to be async functions, as the handlers that this repository
  registers are: a function makes its registry calls before its call returns the promise,
  and a fault is a rejected promise, which reaches the loop when the run resumes. (A
  function that is not async and throws would reach the \<open>catch\<close> block without an
  \<open>await\<close>; for a function that returns, async or not, the run is suspended at the
  \<open>await\<close> as described.)

  A suspended run: the event, the position of its iterator, and the entry whose function
  it has called and awaits.
\<close>

record suspended =
  s_event :: IBMiEvent
  s_position :: nat
  s_identity :: string
  s_callable :: IBMiEventSubscription

text \<open>The first entry of a list of slots, with its position; the second argument is the
  position of the first slot.\<close>

fun next_entry ::
  "SubscriptionMap \<Rightarrow> nat \<Rightarrow> (nat \<times> string \<times> IBMiEventSubscription) option" where
  "next_entry [] i = None"
| "next_entry (None # m) i = next_entry m (Suc i)"
| "next_entry (Some (k, v) # m) i = Some (i, k, v)"

text \<open>The loop from the position \<open>i\<close> of its iterator up to the next \<open>await\<close>: the
  iterator returns the next entry of the map as it is now, the function of the entry is
  called, and the run is suspended; or there is no further entry, and the run ends with
  \<open>console.timeEnd(event)\<close>.\<close>

definition processEvent_advance ::
  "funcs \<Rightarrow> IBMiEvent \<Rightarrow> nat \<Rightarrow> Instance \<Rightarrow> suspended option \<times> Instance" where
  "processEvent_advance F event i s =
     (case next_entry (drop i (eventSubscribers s event)) i of
        None \<Rightarrow> (None, emit (ConsoleTimeEndEvent event) s)
      | Some (j, identity, callable) \<Rightarrow>
          (let s1 = emit (ConsoleTime identity) s;
               (threw, s2) = invoke F (func callable) s1
           in (Some \<lparr>s_event = event, s_position = Suc j, s_identity = identity,
                     s_callable = callable\<rparr>, s2)))"

text \<open>A suspended run resumes: the rest of the \<open>try\<close> block or the \<open>catch\<close> block, the
  \<open>finally\<close> block, and the loop up to the next \<open>await\<close>.\<close>

definition processEvent_resume ::
  "funcs \<Rightarrow> suspended \<Rightarrow> Instance \<Rightarrow> suspended option \<times> Instance" where
  "processEvent_resume F r s =
     (let s3 = (if raises (F (func (s_callable r)))
                then emit (ConsoleError (s_event r) (s_identity r)) s
                else emit (ConsoleTimeEnd (s_identity r)) s);
          s4 = (if transient (s_callable r) = Some True
                then delete_subscriber (s_event r) (s_identity r) s3 else s3)
      in processEvent_advance F (s_event r) (s_position r) s4)"

text \<open>The call \<open>this.processEvent(e)\<close> that the emitter makes, up to its return.\<close>

definition processEvent_start ::
  "funcs \<Rightarrow> IBMiEvent \<Rightarrow> Instance \<Rightarrow> suspended option \<times> Instance" where
  "processEvent_start F event s =
     processEvent_advance F event 0 (emit (ConsoleTimeEvent event) (getSubscribers event s))"

text \<open>
  What happens to an instance is a sequence of steps: a call of \<open>fire\<close>, which starts a
  run, or the resumption of one of the runs started so far (the \<open>i\<close>-th). The order in
  which suspended runs resume is that in which the promises they await are settled; it
  is an input. \<open>interleaved\<close> takes the steps in order; it carries the runs started so
  far, \<open>None\<close> for one that has ended.
\<close>

datatype step = Fires IBMiEvent | Resumes nat

fun interleaved ::
  "funcs \<Rightarrow> step list \<Rightarrow> suspended option list \<times> Instance
   \<Rightarrow> suspended option list \<times> Instance" where
  "interleaved F [] x = x"
| "interleaved F (Fires event # steps) (runs, s) =
     (let (r, s') = processEvent_start F event (fire event s)
      in interleaved F steps (runs @ [r], s'))"
| "interleaved F (Resumes i # steps) (runs, s) =
     (if i < length runs
      then case runs ! i of
          None \<Rightarrow> interleaved F steps (runs, s)
        | Some r \<Rightarrow>
            (let (r', s') = processEvent_resume F r s
             in interleaved F steps (runs[i := r'], s'))
      else interleaved F steps (runs, s))"

section \<open>Notions used in the statements\<close>

text \<open>The keys of the entries of a map, in iteration order.\<close>

definition live_keys :: "SubscriptionMap \<Rightarrow> string list" where
  "live_keys m = map fst (entries m)"

text \<open>What one step of the loop of \<open>processEvent\<close> writes to the trace for an entry
  whose function makes no registry calls.\<close>

definition entry_trace ::
  "funcs \<Rightarrow> IBMiEvent \<Rightarrow> string \<times> IBMiEventSubscription \<Rightarrow> effect list" where
  "entry_trace F event e =
     [ConsoleTime (fst e), Invoke (func (snd e)),
      if raises (F (func (snd e))) then ConsoleError event (fst e) else ConsoleTimeEnd (fst e)]"

text \<open>A map with its transient entries emptied.\<close>

fun sweep :: "SubscriptionMap \<Rightarrow> SubscriptionMap" where
  "sweep [] = []"
| "sweep (None # m) = None # sweep m"
| "sweep (Some (k, v) # m) = (if transient v = Some True then None else Some (k, v)) # sweep m"

text \<open>The entry that a call of \<open>subscribe\<close> stores.\<close>

definition subscription_entry ::
  "string \<times> string \<times> fref \<times> bool option \<Rightarrow> string \<times> IBMiEventSubscription" where
  "subscription_entry c =
     (case c of (extension_id, name, f, tr) \<Rightarrow>
        (subscription_key extension_id name, \<lparr>func = f, transient = tr\<rparr>))"

text \<open>A sequence of \<open>subscribe\<close> calls on one event.\<close>

definition subscribe_all ::
  "IBMiEvent \<Rightarrow> (string \<times> string \<times> fref \<times> bool option) list \<Rightarrow> Instance \<Rightarrow> Instance" where
  "subscribe_all event cs s =
     fold (\<lambda>c. case c of (extension_id, name, f, tr) \<Rightarrow> subscribe extension_id event name f tr) cs s"

text \<open>
  The keys that \<open>onEvent\<close> has yet to hand out are not in the registry: every key of the
  form built by \<open>onEvent\<close> that is registered carries a counter below
  \<open>deprecationCount\<close>. This holds of a new instance and is kept by \<open>onEvent\<close>, and by
  \<open>subscribe\<close> for an extension identifier without a space (an extension identifier has
  the form \<open>publisher.name\<close>).
\<close>

definition counter_ahead :: "Instance \<Rightarrow> bool" where
  "counter_ahead s =
     (\<forall>event nm n. deprecated_key nm n \<in> set (live_keys (eventSubscribers s event))
        \<longrightarrow> n < deprecationCount s)"

text \<open>What one run of \<open>processEvent\<close> writes to the trace when it visits the entries
  \<open>es\<close>, none of whose functions makes a registry call.\<close>

definition fire_trace ::
  "funcs \<Rightarrow> IBMiEvent \<Rightarrow> (string \<times> IBMiEventSubscription) list \<Rightarrow> effect list" where
  "fire_trace F event es =
     ConsoleTimeEvent event # concat (map (entry_trace F event) es) @ [ConsoleTimeEndEvent event]"

text \<open>An entry that stays after it has been invoked.\<close>

definition stays :: "string \<times> IBMiEventSubscription \<Rightarrow> bool" where
  "stays e = (transient (snd e) \<noteq> Some True)"

text \<open>The event fired \<open>j\<close> times, one fire after the other: the run of \<open>processEvent\<close>
  for a fire has ended when the next fire is issued. (Fires issued while a run is
  suspended are the subject of the section on fires that overlap.)\<close>

fun processEvent_times ::
  "nat \<Rightarrow> nat \<Rightarrow> funcs \<Rightarrow> IBMiEvent \<Rightarrow> Instance \<Rightarrow> Instance option" where
  "processEvent_times 0 n F event s = Some s"
| "processEvent_times (Suc j) n F event s =
     (case processEvent n F event s of
        None \<Rightarrow> None
      | Some s' \<Rightarrow> processEvent_times j n F event s')"

text \<open>The keys of the slots of a map, emptied slots included.\<close>

definition slot_keys :: "SubscriptionMap \<Rightarrow> string option list" where
  "slot_keys m = map (map_option fst) m"

text \<open>The identities of the invocations recorded in a trace, in order.\<close>

fun identities :: "effect list \<Rightarrow> string list" where
  "identities [] = []"
| "identities (ConsoleTime k # t) = k # identities t"
| "identities (e # t) = identities t"

text \<open>What a registry call can do to the map of an event and to the trace.\<close>

definition grown :: "IBMiEvent \<Rightarrow> Instance \<Rightarrow> Instance \<Rightarrow> bool" where
  "grown ev s s2 =
     ((\<exists>t. trace s2 = trace s @ t \<and> identities t = []) \<and>
      (\<forall>m. subscribers s ev = Some m \<longrightarrow>
         (\<exists>m2 ext. subscribers s2 ev = Some m2 \<and> slot_keys m2 = slot_keys m @ ext \<and>
            (distinct (live_keys m) \<longrightarrow> distinct (live_keys m2)))))"

text \<open>The effects of the document loop: they concern the console and the editor window
  only.\<close>

fun editor_effect :: "effect \<Rightarrow> bool" where
  "editor_effect (ConsoleLog d) = True"
| "editor_effect (ShowTextDocument d) = True"
| "editor_effect (ShowErrorMessage msg) = True"
| "editor_effect (ExecuteCommand c) = (c = ''workbench.action.closeActiveEditor'')"
| "editor_effect e = False"

section \<open>Example values\<close>

text \<open>The scenario of the spec: \<open>refresh\<close> stays, \<open>notify\<close> is transient.\<close>

definition example_funcs :: funcs where
  "example_funcs f =
     (if f = 0 then \<lparr>fname = ''f1'', calls = [], raises = False\<rparr>
      else if f = 1 then \<lparr>fname = ''f2'', calls = [], raises = True\<rparr>
      else \<lparr>fname = [], calls = [], raises = False\<rparr>)"

definition example_calls :: "(string \<times> string \<times> fref \<times> bool option) list" where
  "example_calls = [(''ext.a'', ''refresh'', 0, None), (''ext.b'', ''notify'', 1, Some True)]"

definition example_instance :: Instance where
  "example_instance = subscribe_all connected example_calls new_Instance"


text \<open>A handler that subscribes itself again under the key \<open>ext.b - notify\<close>, without the
  transient flag, and then throws.\<close>

definition resubscribing_funcs :: funcs where
  "resubscribing_funcs f =
     \<lparr>fname = ''again'', calls = [CallSubscribe ''ext.b'' connected ''notify'' f None],
      raises = True\<rparr>"


text \<open>Two handles, and an instance on which the first has been installed.\<close>

definition example_old :: IBMi where
  "example_old = \<lparr>hid = 1, currentConnectionName = ''dev''\<rparr>"

definition example_new :: IBMi where
  "example_new = \<lparr>hid = 2, currentConnectionName = ''prod''\<rparr>"

definition example_connected :: Instance where
  "example_connected = setConnection (Some example_old) new_Instance"

definition example_documents :: "TextDocument list" where
  "example_documents =
     [\<lparr>doc = 0, scheme = ''member'', isClosed = False, isDirty = False\<rparr>,
      \<lparr>doc = 1, scheme = ''streamfile'', isClosed = False, isDirty = True\<rparr>,
      \<lparr>doc = 2, scheme = ''file'', isClosed = False, isDirty = True\<rparr>]"

text \<open>Functions that make no registry call and return.\<close>

definition quiet_funcs :: funcs where
  "quiet_funcs f = \<lparr>fname = [], calls = [], raises = False\<rparr>"

text \<open>An instance with one entry, registered with the transient flag.\<close>

definition transient_instance :: Instance where
  "transient_instance = subscribe ''ext.b'' connected ''notify'' 0 (Some True) new_Instance"

text \<open>The function \<open>1\<close> subscribes the function \<open>2\<close> under the key \<open>ext.b - notify\<close>,
  without the transient flag; no function throws.\<close>

definition replacing_funcs :: funcs where
  "replacing_funcs f =
     (if f = 1
      then \<lparr>fname = ''f2'', calls = [CallSubscribe ''ext.b'' connected ''notify'' 2 None],
             raises = False\<rparr>
      else \<lparr>fname = [], calls = [], raises = False\<rparr>)"

section \<open>Facts about the map and the loop\<close>

lemma emit_fields [simp]:
  "trace (emit e s) = trace s @ [e]" "connection (emit e s) = connection s"
  "disposed (emit e s) = disposed s" "storageConnectionName (emit e s) = storageConnectionName s"
  "lastConnection (emit e s) = lastConnection s" "subscribers (emit e s) = subscribers s"
  "deprecationCount (emit e s) = deprecationCount s"
  by (simp_all add: emit_def)

lemma entries_append: "entries (a @ b) = entries a @ entries b"
  by (induction a rule: entries.induct) auto

lemma nth_in_entries: "i < length m \<Longrightarrow> m ! i = Some e \<Longrightarrow> e \<in> set (entries m)"
proof (induction m arbitrary: i rule: entries.induct)
  case 1 then show ?case by simp
next
  case (2 m) then show ?case by (cases i) auto
next
  case (3 e' m) then show ?case by (cases i) auto
qed

lemma map_delete_nth:
  "distinct (map fst (entries m)) \<Longrightarrow> i < length m \<Longrightarrow> m ! i = Some (k, v)
   \<Longrightarrow> map_delete m k = m[i := None]"
proof (induction m k arbitrary: i rule: map_delete.induct)
  case (1 k) then show ?case by simp
next
  case (2 m k) then show ?case by (cases i) auto
next
  case (3 k' v' m k)
  show ?case
  proof (cases i)
    case 0 with 3 show ?thesis by simp
  next
    case (Suc j)
    with 3 have in_m: "(k, v) \<in> set (entries m)" by (auto intro: nth_in_entries)
    with 3 have "k' \<noteq> k" by force
    with 3 Suc show ?thesis by simp
  qed
qed

lemma map_set_fresh:
  "k \<notin> fst ` set (entries m) \<Longrightarrow> map_set m k v = m @ [Some (k, v)]"
  by (induction m k v rule: map_set.induct) auto

lemma entries_map_set_present:
  "k \<in> fst ` set (entries m) \<Longrightarrow> distinct (map fst (entries m)) \<Longrightarrow> 
   entries (map_set m k v) = map (\<lambda>(k', v'). if k' = k then (k, v) else (k', v')) (entries m)"
proof (induction m k v rule: map_set.induct)
  case (1 k v) then show ?case by simp
next
  case (2 m k v) then show ?case by simp
next
  case (3 k' v' m k v)
  show ?case
  proof (cases "k' = k")
    case True
    with 3 have "k \<notin> fst ` set (entries m)" by auto
    then have "map (\<lambda>(k', v'). if k' = k then (k, v) else (k', v')) (entries m) = entries m"
      by (intro map_idI) (force simp: image_iff)
    with True show ?thesis by simp
  next
    case False with 3 show ?thesis by auto
  qed
qed

lemma keys_map_set: "fst ` set (entries (map_set m k v)) = insert k (fst ` set (entries m))"
  by (induction m k v rule: map_set.induct) auto

lemma distinct_map_set:
  "distinct (map fst (entries m)) \<Longrightarrow> distinct (map fst (entries (map_set m k v)))"
proof (induction m k v rule: map_set.induct)
  case (3 k' v' m k v)
  then show ?case by (auto simp: keys_map_set)
qed auto

lemma entries_update_None:
  "i < length m \<Longrightarrow> entries (m[i := None]) = entries (take i m) @ entries (drop (Suc i) m)"
  by (simp add: upd_conv_take_nth_drop entries_append)

lemma entries_take_drop: "entries m = entries (take i m) @ entries (drop i m)"
  by (metis append_take_drop_id entries_append)

lemma distinct_update_None:
  assumes "distinct (map fst (entries m))" "i < length m"
  shows "distinct (map fst (entries (m[i := None])))"
proof -
  have "entries m = entries (take i m) @ entries (drop i m)" by (rule entries_take_drop)
  moreover have "drop i m = m ! i # drop (Suc i) m" using assms(2) by (simp add: Cons_nth_drop_Suc)
  ultimately show ?thesis using assms
    by (cases "m ! i") (auto simp: entries_update_None)
qed

lemma length_sweep: "length (sweep m) = length m"
  by (induction m rule: sweep.induct) auto

lemma loop_pure_segment:
  assumes "distinct (map fst (entries m))" "subscribers s ev = Some m"
    "\<forall>e \<in> set (entries (take l (drop i m))). calls (F (func (snd e))) = []"
    "i + l \<le> length m"
  shows "processEvent_loop (l + n) F ev i s =
     processEvent_loop n F ev (i + l)
       (s\<lparr>subscribers := (subscribers s)(ev \<mapsto> take i m @ sweep (take l (drop i m)) @ drop (i + l) m),
          trace := trace s @ concat (map (entry_trace F ev) (entries (take l (drop i m))))\<rparr>)"
  using assms
proof (induction l arbitrary: i s m)
  case 0
  have "(subscribers s)(ev \<mapsto> m) = subscribers s" using 0(2) by auto
  then show ?case by simp
next
  case (Suc l)
  have es: "eventSubscribers s ev = m" using Suc.prems(2) by (simp add: eventSubscribers_def)
  have i: "i < length m" using Suc.prems(4) by simp
  have dr: "drop i m = m ! i # drop (Suc i) m" using i by (simp add: Cons_nth_drop_Suc)
  have tk: "take (Suc i) m = take i m @ [m ! i]" using i by (simp add: take_Suc_conv_app_nth)
  show ?case
  proof (cases "m ! i")
    case None
    have "processEvent_loop (l + n) F ev (Suc i) s =
       processEvent_loop n F ev (Suc i + l)
       (s\<lparr>subscribers := (subscribers s)(ev \<mapsto> take (Suc i) m @ sweep (take l (drop (Suc i) m)) @ drop (Suc i + l) m),
          trace := trace s @ concat (map (entry_trace F ev) (entries (take l (drop (Suc i) m))))\<rparr>)"
      using Suc.prems by (intro Suc.IH) (auto simp: dr None)
    then show ?thesis using i es None by (simp add: dr tk fun_upd_def)
  next
    case (Some e)
    obtain k v where e: "e = (k, v)" by (cases e)
    have pure: "calls (F (func v)) = []" using Suc.prems(3) by (simp add: dr Some e)
    define s3 where "s3 = s\<lparr>trace := trace s @ entry_trace F ev (k, v)\<rparr>"
    define m' where "m' = (if transient v = Some True then m[i := None] else m)"
    define s4 where "s4 = s3\<lparr>subscribers := (subscribers s)(ev \<mapsto> m')\<rparr>"
    have step: "processEvent_loop (Suc l + n) F ev i s = processEvent_loop (l + n) F ev (Suc i) s4"
    proof (cases "transient v = Some True")
      case True
      have "map_delete m k = m[i := None]"
        using Suc.prems(1) i Some e by (intro map_delete_nth) auto
      then show ?thesis using i es Some e pure True
        by (simp add: invoke_def emit_def entry_trace_def delete_subscriber_def
            eventSubscribers_def s3_def s4_def m'_def Suc.prems(2))
    next
      case False
      have "(subscribers s)(ev \<mapsto> m) = subscribers s" using Suc.prems(2) by auto
      then show ?thesis using i es Some e pure False
        by (simp add: invoke_def emit_def entry_trace_def s3_def s4_def m'_def)
    qed
    have d': "distinct (map fst (entries m'))"
      using Suc.prems(1) i by (simp add: m'_def distinct_update_None)
    have dr': "drop (Suc i) m' = drop (Suc i) m" by (simp add: m'_def)
    have len': "length m' = length m" by (simp add: m'_def)
    have rest: "processEvent_loop (l + n) F ev (Suc i) s4 =
       processEvent_loop n F ev (Suc i + l)
       (s4\<lparr>subscribers := (subscribers s4)(ev \<mapsto> take (Suc i) m' @ sweep (take l (drop (Suc i) m')) @ drop (Suc i + l) m'),
          trace := trace s4 @ concat (map (entry_trace F ev) (entries (take l (drop (Suc i) m'))))\<rparr>)"
      using Suc.prems d' i by (intro Suc.IH) (auto simp: dr dr' len' s4_def Some e)
    have dr2: "drop (Suc i + l) m' = drop (i + Suc l) m" by (simp add: m'_def)
    have tk': "take (Suc i) m' @ sweep (take l (drop (Suc i) m')) @ drop (Suc i + l) m'
        = take i m @ sweep (take (Suc l) (drop i m)) @ drop (i + Suc l) m"
      unfolding dr2 dr' using i by (auto simp: m'_def dr Some e take_Suc_conv_app_nth)
    have "s4\<lparr>subscribers := (subscribers s4)(ev \<mapsto> take (Suc i) m' @ sweep (take l (drop (Suc i) m')) @ drop (Suc i + l) m'),
          trace := trace s4 @ concat (map (entry_trace F ev) (entries (take l (drop (Suc i) m'))))\<rparr>
      = s\<lparr>subscribers := (subscribers s)(ev \<mapsto> take i m @ sweep (take (Suc l) (drop i m)) @ drop (i + Suc l) m),
          trace := trace s @ concat (map (entry_trace F ev) (entries (take (Suc l) (drop i m))))\<rparr>"
      unfolding tk' by (simp add: s4_def s3_def dr' dr Some e)
    with step rest show ?thesis by (simp only: add_Suc_right add_Suc)
  qed
qed

lemma loop_pure:
  assumes "distinct (map fst (entries m))" "subscribers s ev = Some m"
    "\<forall>e \<in> set (entries (drop i m)). calls (F (func (snd e))) = []"
    "length m - i < n"
  shows "processEvent_loop n F ev i s =
     Some (s\<lparr>subscribers := (subscribers s)(ev \<mapsto> take i m @ sweep (drop i m)),
             trace := trace s @ concat (map (entry_trace F ev) (entries (drop i m)))\<rparr>)"
proof (cases "length m \<le> i")
  case True
  obtain n' where n': "n = Suc n'" using assms(4) by (cases n) auto
  have "(subscribers s)(ev \<mapsto> m) = subscribers s" using assms(2) by auto
  with True assms(2) show ?thesis by (simp add: n' eventSubscribers_def)
next
  case False
  define l where "l = length m - i"
  obtain n' where n': "n = l + Suc n'"
    using assms(4) less_imp_Suc_add[of l n] by (auto simp: l_def)
  define s' where "s' = s\<lparr>subscribers := (subscribers s)(ev \<mapsto> take i m @ sweep (drop i m)),
             trace := trace s @ concat (map (entry_trace F ev) (entries (drop i m)))\<rparr>"
  have "processEvent_loop (l + Suc n') F ev i s = processEvent_loop (Suc n') F ev (i + l) s'"
    using loop_pure_segment[of m s ev l i F "Suc n'"] assms(1-3) False
    by (simp add: l_def s'_def)
  moreover have "length (eventSubscribers s' ev) \<le> i + l"
    using False by (simp add: s'_def eventSubscribers_def l_def length_sweep)
  ultimately show ?thesis by (simp add: n' s'_def[symmetric])
qed

lemma processEvent_pure:
  assumes "distinct (live_keys (eventSubscribers s ev))"
    "\<forall>e \<in> set (entries (eventSubscribers s ev)). calls (F (func (snd e))) = []"
    "length (eventSubscribers s ev) < n"
  shows "processEvent n F ev s =
     Some (s\<lparr>subscribers := (subscribers s)(ev \<mapsto> sweep (eventSubscribers s ev)),
             trace := trace s @ ConsoleTimeEvent ev #
               concat (map (entry_trace F ev) (entries (eventSubscribers s ev))) @
               [ConsoleTimeEndEvent ev]\<rparr>)"
proof -
  define m where "m = eventSubscribers s ev"
  define s0 where "s0 = emit (ConsoleTimeEvent ev) (getSubscribers ev s)"
  have sub0: "subscribers s0 ev = Some m"
    by (auto simp: s0_def m_def emit_def getSubscribers_def eventSubscribers_def split: option.splits)
  have upd: "(subscribers s0)(ev \<mapsto> x) = (subscribers s)(ev \<mapsto> x)" for x
    by (auto simp: s0_def emit_def getSubscribers_def split: option.splits)
  have "processEvent_loop n F ev 0 s0 =
     Some (s0\<lparr>subscribers := (subscribers s0)(ev \<mapsto> take 0 m @ sweep (drop 0 m)),
             trace := trace s0 @ concat (map (entry_trace F ev) (entries (drop 0 m)))\<rparr>)"
    using assms sub0 by (intro loop_pure) (auto simp: m_def live_keys_def)
  then show ?thesis
    unfolding processEvent_def s0_def[symmetric] m_def[symmetric]
    by (simp add: upd) (auto simp: s0_def emit_def getSubscribers_def split: option.splits)
qed

lemma eventSubscribers_set_subscriber:
  "eventSubscribers (set_subscriber ev k v s) ev' =
     (if ev' = ev then map_set (eventSubscribers s ev) k v else eventSubscribers s ev')"
  by (auto simp: set_subscriber_def getSubscribers_def eventSubscribers_def Let_def
      split: option.splits)

lemma trace_set_subscriber: "trace (set_subscriber ev k v s) = trace s"
  by (simp add: set_subscriber_def getSubscribers_def Let_def split: option.splits)

lemma eventSubscribers_subscribe_all:
  "eventSubscribers (subscribe_all ev cs s) ev =
     fold (\<lambda>c m. map_set m (fst (subscription_entry c)) (snd (subscription_entry c))) cs
       (eventSubscribers s ev)"
proof (induction cs arbitrary: s)
  case Nil then show ?case by (simp add: subscribe_all_def)
next
  case (Cons c cs)
  obtain x n f t where c: "c = (x, n, f, t)" by (cases c)
  have "subscribe_all ev (c # cs) s = subscribe_all ev cs (subscribe x ev n f t s)"
    by (simp add: subscribe_all_def c)
  then show ?case
    by (simp add: Cons.IH subscribe_def eventSubscribers_set_subscriber subscription_entry_def c)
qed

lemma trace_subscribe_all: "trace (subscribe_all ev cs s) = trace s"
  by (induction cs arbitrary: s)
     (auto simp: subscribe_all_def subscribe_def trace_set_subscriber)

lemma fold_map_set_fresh:
  "distinct (map fst es) \<Longrightarrow> fst ` set es \<inter> fst ` set (entries m) = {} \<Longrightarrow>
   fold (\<lambda>e m. map_set m (fst e) (snd e)) es m = m @ map Some es"
proof (induction es arbitrary: m)
  case Nil then show ?case by simp
next
  case (Cons e es)
  have fresh: "fst e \<notin> fst ` set (entries m)" using Cons.prems(2) by auto
  have "fst ` set es \<inter> fst ` set (entries (m @ [Some e])) = {}"
    using Cons.prems by (auto simp: entries_append)
  with Cons show ?case by (simp add: map_set_fresh[OF fresh])
qed

lemma entries_map_Some: "entries (map Some es) = es"
  by (induction es) auto

lemma entries_map_Some_comp: "entries (map (Some \<circ> g) xs) = map g xs"
  by (induction xs) auto


lemma entries_sweep: "entries (sweep m) = filter stays (entries m)"
  by (induction m rule: sweep.induct) (auto simp: stays_def)

lemma subscription_key_inject:
  assumes "subscription_key x n = subscription_key x' n'"
    "CHR '' '' \<notin> set x" "CHR '' '' \<notin> set x'"
  shows "x = x' \<and> n = n'"
proof -
  have tw: "takeWhile (\<lambda>c. c \<noteq> CHR '' '') (subscription_key y k) = y" if "CHR '' '' \<notin> set y" for y k
    using that by (auto simp: subscription_key_def takeWhile_tail)
  have "x = x'" using assms tw[of x n] tw[of x' n'] by simp
  with assms(1) show ?thesis by (simp add: subscription_key_def)
qed

lemma distinct_subscription_keys:
  assumes "distinct (map (\<lambda>c. (fst c, fst (snd c))) cs)"
    "\<forall>c \<in> set cs. CHR '' '' \<notin> set (fst c)"
  shows "distinct (map (fst \<circ> subscription_entry) cs)"
  using assms
proof (induction cs)
  case Nil then show ?case by simp
next
  case (Cons c cs)
  have "fst (subscription_entry c) \<noteq> fst (subscription_entry d)" if "d \<in> set cs" for d
  proof
    assume eq: "fst (subscription_entry c) = fst (subscription_entry d)"
    obtain x n f t where c: "c = (x, n, f, t)" by (cases c)
    obtain x' n' f' t' where d: "d = (x', n', f', t')" by (cases d)
    have "x = x' \<and> n = n'"
      using eq Cons.prems(2) that by (intro subscription_key_inject) (auto simp: subscription_entry_def c d)
    then have "(fst c, fst (snd c)) = (fst d, fst (snd d))" by (simp add: c d)
    with that Cons.prems(1) show False by (force simp: image_iff)
  qed
  with Cons show ?case by (auto simp: image_iff)
qed

lemma distinct_sweep: "distinct (live_keys m) \<Longrightarrow> distinct (live_keys (sweep m))"
  by (simp add: live_keys_def entries_sweep distinct_map_filter)

lemma live_keys_map_set_present:
  assumes "k \<in> set (live_keys m)" "distinct (live_keys m)"
  shows "live_keys (map_set m k v) = live_keys m"
proof -
  have "map fst (map (\<lambda>(k', v'). if k' = k then (k, v) else (k', v')) (entries m)) = map fst (entries m)"
    by (induction "entries m") (auto split: prod.splits)
  then show ?thesis
    using assms by (simp add: live_keys_def entries_map_set_present)
qed

lemma length_map_set_present:
  "k \<in> set (live_keys m) \<Longrightarrow> length (map_set m k v) = length m"
  by (induction m k v rule: map_set.induct) (auto simp: live_keys_def)


lemma subscribers_set_subscriber:
  "subscribers (set_subscriber ev k v s) ev = Some (map_set (eventSubscribers s ev) k v)"
  by (auto simp: set_subscriber_def getSubscribers_def eventSubscribers_def Let_def
      split: option.splits)


lemma sweep_sweep: "sweep (sweep m) = sweep m"
  by (induction m rule: sweep.induct) auto

lemma processEvent_fire_trace:
  assumes "distinct (live_keys (eventSubscribers s ev))"
    "\<forall>e \<in> set (entries (eventSubscribers s ev)). calls (F (func (snd e))) = []"
    "length (eventSubscribers s ev) < n"
  shows "processEvent n F ev s =
     Some (s\<lparr>subscribers := (subscribers s)(ev \<mapsto> sweep (eventSubscribers s ev)),
             trace := trace s @ fire_trace F ev (entries (eventSubscribers s ev))\<rparr>)"
  using processEvent_pure[OF assms] by (simp add: fire_trace_def)

lemma processEvent_times_pure:
  assumes "distinct (live_keys (eventSubscribers s ev))"
    "\<forall>e \<in> set (entries (eventSubscribers s ev)). calls (F (func (snd e))) = []"
    "length (eventSubscribers s ev) < n"
  shows "processEvent_times (Suc j) n F ev s =
     Some (s\<lparr>subscribers := (subscribers s)(ev \<mapsto> sweep (eventSubscribers s ev)),
             trace := trace s @ fire_trace F ev (entries (eventSubscribers s ev)) @
               concat (replicate j (fire_trace F ev (filter stays (entries (eventSubscribers s ev)))))\<rparr>)"
  using assms
proof (induction j arbitrary: s)
  case 0
  then show ?case by (simp add: processEvent_fire_trace fun_upd_def)
next
  case (Suc j)
  let ?m = "eventSubscribers s ev"
  define s1 where "s1 = s\<lparr>subscribers := (subscribers s)(ev \<mapsto> sweep ?m),
             trace := trace s @ fire_trace F ev (entries ?m)\<rparr>"
  have first: "processEvent n F ev s = Some s1"
    unfolding s1_def using Suc.prems by (rule processEvent_fire_trace)
  have m1: "eventSubscribers s1 ev = sweep ?m" by (simp add: s1_def eventSubscribers_def)
  have ent: "entries (sweep ?m) = filter stays (entries ?m)"
    by (simp add: entries_sweep)
  have rest: "processEvent_times (Suc j) n F ev s1 =
     Some (s1\<lparr>subscribers := (subscribers s1)(ev \<mapsto> sweep (eventSubscribers s1 ev)),
             trace := trace s1 @ fire_trace F ev (entries (eventSubscribers s1 ev)) @
               concat (replicate j (fire_trace F ev (filter stays (entries (eventSubscribers s1 ev)))))\<rparr>)"
    using Suc.prems by (intro Suc.IH) (auto simp: m1 distinct_sweep ent length_sweep)
  have step: "processEvent_times (Suc (Suc j)) n F ev s = processEvent_times (Suc j) n F ev s1"
    using first by simp
  have "s1\<lparr>subscribers := (subscribers s1)(ev \<mapsto> sweep (eventSubscribers s1 ev)),
             trace := trace s1 @ fire_trace F ev (entries (eventSubscribers s1 ev)) @
               concat (replicate j (fire_trace F ev (filter stays (entries (eventSubscribers s1 ev)))))\<rparr>
     = s\<lparr>subscribers := (subscribers s)(ev \<mapsto> sweep ?m),
             trace := trace s @ fire_trace F ev (entries ?m) @
               concat (replicate (Suc j) (fire_trace F ev (filter stays (entries ?m))))\<rparr>"
    unfolding m1 sweep_sweep ent by (simp add: s1_def)
  with step rest show ?case by (simp only:)
qed

declare string_of_nat.simps [simp del]

lemma string_of_nat_nonempty: "string_of_nat n \<noteq> []"
  by (subst string_of_nat.simps) simp

lemma digit_char_inject: "a < 10 \<Longrightarrow> b < 10 \<Longrightarrow> char_of (48 + a) = (char_of (48 + b) :: char) \<Longrightarrow> a = (b::nat)"
  by (simp add: char_of_eq_iff take_bit_eq_mod)

lemma string_of_nat_inject: "string_of_nat n = string_of_nat m \<Longrightarrow> n = m"
proof (induction n arbitrary: m rule: string_of_nat.induct)
  case (1 n)
  show ?case
  proof (cases "n < 10")
    case True
    then have n: "string_of_nat n = [char_of (48 + n)]" by (subst string_of_nat.simps) simp
    show ?thesis
    proof (cases "m < 10")
      case True
      then have "string_of_nat m = [char_of (48 + m)]" by (subst string_of_nat.simps) simp
      with n 1(2) \<open>n < 10\<close> True show ?thesis by (auto dest: digit_char_inject)
    next
      case False
      then have "string_of_nat m = string_of_nat (m div 10) @ [char_of (48 + m mod 10)]"
        by (subst string_of_nat.simps) simp
      with n 1(2) show ?thesis using string_of_nat_nonempty[of "m div 10"] by simp
    qed
  next
    case False
    then have n: "string_of_nat n = string_of_nat (n div 10) @ [char_of (48 + n mod 10)]"
      by (subst string_of_nat.simps) simp
    show ?thesis
    proof (cases "m < 10")
      case True
      then have "string_of_nat m = [char_of (48 + m)]" by (subst string_of_nat.simps) simp
      with n 1(2) show ?thesis using string_of_nat_nonempty[of "n div 10"] by simp
    next
      case m: False
      then have "string_of_nat m = string_of_nat (m div 10) @ [char_of (48 + m mod 10)]"
        by (subst string_of_nat.simps) simp
      with n 1(2) have eq: "string_of_nat (n div 10) = string_of_nat (m div 10)"
        "char_of (48 + n mod 10) = (char_of (48 + m mod 10) :: char)" by auto
      have "n div 10 = m div 10" using 1(1)[OF False eq(1)] .
      moreover have "n mod 10 = m mod 10" using eq(2) by (intro digit_char_inject) auto
      ultimately show ?thesis by (metis div_mult_mod_eq)
    qed
  qed
qed

lemma string_of_nat_no_underscore: "CHR ''_'' \<notin> set (string_of_nat n)"
proof (induction n rule: string_of_nat.induct)
  case (1 n)
  have digit: "CHR ''_'' \<noteq> char_of (48 + d)" if "d < 10" for d :: nat
  proof
    assume "CHR ''_'' = char_of (48 + d)"
    then have "of_char (char_of (48 + d) :: char) = (of_char CHR ''_'' :: nat)" by simp
    with that show False by simp
  qed
  show ?case
  proof (cases "n < 10")
    case True
    then show ?thesis by (subst string_of_nat.simps) (simp add: digit)
  next
    case False
    with 1 show ?thesis by (subst string_of_nat.simps) (simp add: digit)
  qed
qed

lemma suffix_after_separator:
  assumes "a @ u # d = a' @ u # d'" "u \<notin> set d" "u \<notin> set d'"
  shows "d = d'"
proof -
  have "takeWhile (\<lambda>c. c \<noteq> u) (rev (b @ u # e)) = rev e" if "u \<notin> set e" for b e
    using that by (auto simp: takeWhile_tail)
  from this[of d a] this[of d' a'] assms show ?thesis by simp
qed

lemma deprecated_key_inject: "deprecated_key nm n = deprecated_key nm' n' \<Longrightarrow> n = n'"
proof -
  assume "deprecated_key nm n = deprecated_key nm' n'"
  then have "(if nm = [] then ''unknown'' else nm) @ CHR ''_'' # string_of_nat n =
             (if nm' = [] then ''unknown'' else nm') @ CHR ''_'' # string_of_nat n'"
    unfolding deprecated_key_def by simp
  then have "string_of_nat n = string_of_nat n'"
    by (rule suffix_after_separator) (rule string_of_nat_no_underscore)+
  then show ?thesis by (rule string_of_nat_inject)
qed

section \<open>Facts about the keys\<close>

lemma set_live_keys_map_set: "set (live_keys (map_set m k v)) = insert k (set (live_keys m))"
  using keys_map_set[of m k v] by (simp add: live_keys_def)

lemma eventSubscribers_onEvent:
  "eventSubscribers (onEvent F ev f s) ev' =
     (if ev' = ev
      then map_set (eventSubscribers s ev) (deprecated_key (fname (F f)) (deprecationCount s))
             \<lparr>func = f, transient = None\<rparr>
      else eventSubscribers s ev')"
  using eventSubscribers_set_subscriber[of ev _ _ s ev']
  by (simp add: onEvent_def Let_def emit_def eventSubscribers_def)

lemma deprecationCount_set_subscriber: "deprecationCount (set_subscriber ev k v s) = deprecationCount s"
  by (simp add: set_subscriber_def getSubscribers_def Let_def split: option.splits)

lemma deprecationCount_onEvent: "deprecationCount (onEvent F ev f s) = Suc (deprecationCount s)"
  by (simp add: onEvent_def Let_def emit_def)

lemma trace_onEvent: "trace (onEvent F ev f s) = trace s @ [ConsoleWarn]"
  by (simp add: onEvent_def Let_def emit_def trace_set_subscriber)

lemma counter_ahead_new_Instance: "counter_ahead new_Instance"
  by (simp add: counter_ahead_def new_Instance_def eventSubscribers_def live_keys_def)

lemma counter_ahead_fresh:
  "counter_ahead s \<Longrightarrow> deprecationCount s \<le> n \<Longrightarrow>
   deprecated_key nm n \<notin> set (live_keys (eventSubscribers s ev))"
  unfolding counter_ahead_def by (meson not_le)

lemma counter_ahead_onEvent:
  assumes "counter_ahead s"
  shows "counter_ahead (onEvent F ev f s)"
  unfolding counter_ahead_def
proof (intro allI impI)
  fix ev' nm n
  assume "deprecated_key nm n \<in> set (live_keys (eventSubscribers (onEvent F ev f s) ev'))"
  then consider "deprecated_key nm n \<in> set (live_keys (eventSubscribers s ev'))"
    | "deprecated_key nm n = deprecated_key (fname (F f)) (deprecationCount s)"
    by (auto simp: eventSubscribers_onEvent set_live_keys_map_set split: if_splits)
  then show "n < deprecationCount (onEvent F ev f s)"
  proof cases
    case 1
    with assms have "n < deprecationCount s" by (auto simp: counter_ahead_def)
    then show ?thesis by (simp add: deprecationCount_onEvent)
  next
    case 2
    then have "n = deprecationCount s" by (rule deprecated_key_inject)
    then show ?thesis by (simp add: deprecationCount_onEvent)
  qed
qed

lemma subscription_key_not_deprecated:
  assumes "CHR '' '' \<notin> set x" "x \<noteq> ''deprecated''"
  shows "subscription_key x name \<noteq> deprecated_key nm n"
proof
  assume eq: "subscription_key x name = deprecated_key nm n"
  have "takeWhile (\<lambda>c. c \<noteq> CHR '' '') (subscription_key x name) = x"
    using assms(1) by (auto simp: subscription_key_def takeWhile_tail)
  moreover have "takeWhile (\<lambda>c. c \<noteq> CHR '' '') (deprecated_key nm n) = ''deprecated''"
    by (simp add: deprecated_key_def)
  ultimately show False using eq assms(2) by simp
qed

lemma counter_ahead_subscribe:
  assumes "counter_ahead s" "CHR '' '' \<notin> set x" "x \<noteq> ''deprecated''"
  shows "counter_ahead (subscribe x ev name f tr s)"
  unfolding counter_ahead_def
proof (intro allI impI)
  fix ev' nm n
  assume "deprecated_key nm n \<in> set (live_keys (eventSubscribers (subscribe x ev name f tr s) ev'))"
  then have "deprecated_key nm n \<in> set (live_keys (eventSubscribers s ev'))"
    using subscription_key_not_deprecated[OF assms(2,3), of name nm n]
    by (auto simp: subscribe_def eventSubscribers_set_subscriber set_live_keys_map_set
        split: if_splits)
  with assms(1) show "n < deprecationCount (subscribe x ev name f tr s)"
    by (auto simp: counter_ahead_def subscribe_def deprecationCount_set_subscriber)
qed

lemma entries_map_set_fresh:
  "k \<notin> set (live_keys m) \<Longrightarrow> entries (map_set m k v) = entries m @ [(k, v)]"
  by (simp add: live_keys_def map_set_fresh entries_append)

lemma length_map_set_le: "length (map_set m k v) \<le> Suc (length m)"
  by (induction m k v rule: map_set.induct) auto

section \<open>Facts about the loop, whatever the handlers do\<close>

lemma identities_append: "identities (a @ b) = identities a @ identities b"
  by (induction a rule: identities.induct) auto

lemma live_keys_slot_keys: "live_keys m = List.map_filter id (slot_keys m)"
  by (induction m rule: entries.induct) (auto simp: live_keys_def slot_keys_def map_filter_simps)

lemma map_filter_app: "List.map_filter g (a @ b) = List.map_filter g a @ List.map_filter g b"
  by (simp add: List.map_filter_def)

lemma slot_keys_map_set:
  "slot_keys (map_set m k v) = slot_keys m @ (if k \<in> set (live_keys m) then [] else [Some k])"
  by (induction m k v rule: map_set.induct) (auto simp: slot_keys_def live_keys_def)

lemma live_keys_drop_extends:
  assumes "slot_keys m2 = slot_keys m @ ext" "j \<le> length m"
  shows "live_keys (drop j m2) = live_keys (drop j m) @ List.map_filter id ext"
proof -
  have "slot_keys (drop j m2) = drop j (slot_keys m2)" by (simp add: slot_keys_def drop_map)
  also have "\<dots> = drop j (slot_keys m) @ ext" using assms by (simp add: slot_keys_def)
  also have "drop j (slot_keys m) = slot_keys (drop j m)" by (simp add: slot_keys_def drop_map)
  finally show ?thesis by (simp add: live_keys_slot_keys map_filter_app)
qed

lemma nth_extends:
  assumes "slot_keys m2 = slot_keys m @ ext" "i < length m" "m ! i = Some (k, v)"
  shows "i < length m2 \<and> (\<exists>v'. m2 ! i = Some (k, v'))"
proof -
  have len: "length m2 = length m + length ext"
    using arg_cong[OF assms(1), of length] by (simp add: slot_keys_def)
  have "slot_keys m2 ! i = slot_keys m ! i" using assms(1,2) by (simp add: nth_append slot_keys_def)
  then have "map_option fst (m2 ! i) = Some k"
    using assms(2,3) len by (simp add: slot_keys_def)
  then show ?thesis using len assms(2) by (cases "m2 ! i") auto
qed

lemma grown_refl: "grown ev s s"
  by (simp add: grown_def)

lemma grown_trans:
  assumes "grown ev s s1" "grown ev s1 s2"
  shows "grown ev s s2"
proof -
  from assms obtain t1 t2 where t: "trace s1 = trace s @ t1" "identities t1 = []"
    "trace s2 = trace s1 @ t2" "identities t2 = []"
    unfolding grown_def by blast
  then have "trace s2 = trace s @ (t1 @ t2) \<and> identities (t1 @ t2) = []"
    by (simp add: identities_append)
  then have tr: "\<exists>t. trace s2 = trace s @ t \<and> identities t = []" by blast
  have "\<exists>m2 ext. subscribers s2 ev = Some m2 \<and> slot_keys m2 = slot_keys m @ ext \<and>
            (distinct (live_keys m) \<longrightarrow> distinct (live_keys m2))"
    if "subscribers s ev = Some m" for m
  proof -
    from assms(1) that obtain m1 e1 where m1: "subscribers s1 ev = Some m1"
      "slot_keys m1 = slot_keys m @ e1" "distinct (live_keys m) \<longrightarrow> distinct (live_keys m1)"
      unfolding grown_def by blast
    from assms(2) m1(1) obtain m2 e2 where m2: "subscribers s2 ev = Some m2"
      "slot_keys m2 = slot_keys m1 @ e2" "distinct (live_keys m1) \<longrightarrow> distinct (live_keys m2)"
      unfolding grown_def by blast
    have "slot_keys m2 = slot_keys m @ (e1 @ e2)" using m1(2) m2(2) by simp
    with m2(1) m1(3) m2(3) show ?thesis by blast
  qed
  with tr show ?thesis unfolding grown_def by blast
qed

lemma distinct_live_keys_map_set:
  "distinct (live_keys m) \<Longrightarrow> distinct (live_keys (map_set m k v))"
  using distinct_map_set[of m k v] by (simp add: live_keys_def)

lemma grown_set_subscriber: "grown ev s (set_subscriber e k v s)"
proof (cases "e = ev")
  case True
  show ?thesis
    unfolding grown_def
    by (auto simp: True trace_set_subscriber subscribers_set_subscriber eventSubscribers_def
        slot_keys_map_set distinct_live_keys_map_set)
next
  case False
  then have "subscribers (set_subscriber e k v s) ev = subscribers s ev"
    by (auto simp: set_subscriber_def getSubscribers_def Let_def split: option.splits)
  then show ?thesis by (simp add: grown_def trace_set_subscriber)
qed

lemma grown_do_call: "grown ev s (do_call F c s)"
proof (cases c)
  case (CallSubscribe x e name f tr)
  then show ?thesis by (simp add: subscribe_def grown_set_subscriber)
next
  case (CallOnEvent e f)
  have "grown ev s (set_subscriber e (deprecated_key (fname (F f)) (deprecationCount s))
                 \<lparr>func = f, transient = None\<rparr> s)" (is "grown ev s ?s1")
    by (rule grown_set_subscriber)
  moreover have "grown ev ?s1 (emit ConsoleWarn (?s1\<lparr>deprecationCount := deprecationCount s + 1\<rparr>))"
    by (simp add: grown_def)
  ultimately show ?thesis
    unfolding CallOnEvent by (simp add: onEvent_def Let_def) (rule grown_trans)
qed

lemma grown_fold: "grown ev s (fold (do_call F) cs s)"
proof (induction cs arbitrary: s)
  case Nil
  show ?case by (simp add: grown_refl)
next
  case (Cons c cs)
  show ?case using grown_do_call[of ev s F c] Cons[of "do_call F c s"]
    by (simp add: grown_trans)
qed

lemma not_live_after_update_None:
  assumes "distinct (live_keys m)" "i < length m" "m ! i = Some (k, v)"
  shows "k \<notin> set (live_keys (m[i := None]))"
proof -
  have "entries m = entries (take i m) @ entries (drop i m)" by (rule entries_take_drop)
  moreover have "drop i m = Some (k, v) # drop (Suc i) m"
    using Cons_nth_drop_Suc[OF assms(2)] assms(3) by simp
  ultimately have "live_keys m = live_keys (take i m) @ k # live_keys (drop (Suc i) m)"
    by (simp add: live_keys_def)
  with assms(1) show ?thesis
    using assms(2) by (auto simp: live_keys_def entries_update_None)
qed

lemma live_keys_do_call:
  "set (live_keys (eventSubscribers s ev)) \<subseteq> set (live_keys (eventSubscribers (do_call F c s) ev))"
proof (cases c)
  case (CallSubscribe x e name f tr)
  then show ?thesis
    by (auto simp: subscribe_def eventSubscribers_set_subscriber set_live_keys_map_set)
next
  case (CallOnEvent e f)
  then show ?thesis
    by (auto simp: eventSubscribers_onEvent set_live_keys_map_set)
qed

lemma live_keys_fold:
  "set (live_keys (eventSubscribers s ev)) \<subseteq>
   set (live_keys (eventSubscribers (fold (do_call F) cs s) ev))"
proof (induction cs arbitrary: s)
  case Nil
  show ?case by simp
next
  case (Cons c cs)
  show ?case using live_keys_do_call[of s ev F c] Cons[of "do_call F c s"] by auto
qed

lemma subscribed_key_live:
  assumes "CallSubscribe x ev name g tr \<in> set cs"
  shows "subscription_key x name \<in> set (live_keys (eventSubscribers (fold (do_call F) cs s) ev))"
  using assms
proof (induction cs arbitrary: s)
  case Nil
  then show ?case by simp
next
  case (Cons c cs)
  show ?case
  proof (cases "c = CallSubscribe x ev name g tr")
    case True
    have "subscription_key x name \<in> set (live_keys (eventSubscribers (do_call F c s) ev))"
      by (simp add: True subscribe_def eventSubscribers_set_subscriber set_live_keys_map_set)
    then show ?thesis using live_keys_fold[of "do_call F c s" ev F cs] by auto
  next
    case False
    with Cons.prems have "CallSubscribe x ev name g tr \<in> set cs" by simp
    from Cons.IH[OF this] show ?thesis by simp
  qed
qed

lemma live_keys_take_extends:
  assumes "slot_keys m2 = slot_keys m @ ext" "j \<le> length m"
  shows "live_keys (take j m2) = live_keys (take j m)"
proof -
  have "slot_keys (take j m2) = take j (slot_keys m2)" by (simp add: slot_keys_def take_map)
  also have "\<dots> = take j (slot_keys m)" using assms by (simp add: slot_keys_def)
  also have "\<dots> = slot_keys (take j m)" by (simp add: slot_keys_def take_map)
  finally show ?thesis by (simp add: live_keys_slot_keys)
qed

text \<open>One step of the loop at a slot that holds an entry, whatever its function does.\<close>

lemma loop_step:
  assumes "subscribers s ev = Some m" "distinct (live_keys m)" "i < length m"
    "m ! i = Some (k, v)"
  shows "\<exists>s4 ws m4 ext.
     processEvent_loop (Suc n) F ev i s = processEvent_loop n F ev (Suc i) s4 \<and>
     trace s4 = trace s @ [ConsoleTime k, Invoke (func v)] @ ws @
       [if raises (F (func v)) then ConsoleError ev k else ConsoleTimeEnd k] \<and>
     identities ws = [] \<and> subscribers s4 ev = Some m4 \<and> distinct (live_keys m4) \<and>
     live_keys (drop (Suc i) m4) = live_keys (drop (Suc i) m) @ ext \<and>
     (transient v = Some True \<longrightarrow> k \<notin> set (live_keys m4)) \<and>
     (\<forall>x name g tr. CallSubscribe x ev name g tr \<in> set (calls (F (func v))) \<and>
        subscription_key x name \<notin> set (live_keys m) \<longrightarrow> subscription_key x name \<in> set ext)"
proof -
  have es: "eventSubscribers s ev = m" using assms(1) by (simp add: eventSubscribers_def)
  define s1 where "s1 = emit (Invoke (func v)) (emit (ConsoleTime k) s)"
  define s2 where "s2 = fold (do_call F) (calls (F (func v))) s1"
  define s3 where "s3 = (if raises (F (func v)) then emit (ConsoleError ev k) s2
                         else emit (ConsoleTimeEnd k) s2)"
  define s4 where "s4 = (if transient v = Some True then delete_subscriber ev k s3 else s3)"
  have step: "processEvent_loop (Suc n) F ev i s = processEvent_loop n F ev (Suc i) s4"
    using assms(3,4) es by (simp add: invoke_def s1_def s2_def s3_def s4_def Let_def)
  have g: "grown ev s1 s2" unfolding s2_def by (rule grown_fold)
  have sub1: "subscribers s1 ev = Some m" by (simp add: s1_def emit_def assms(1))
  from g sub1 assms(2) obtain m2 ext where m2: "subscribers s2 ev = Some m2"
    "slot_keys m2 = slot_keys m @ ext" "distinct (live_keys m2)"
    unfolding grown_def by blast
  from g obtain ws where ws: "trace s2 = trace s1 @ ws" "identities ws = []"
    unfolding grown_def by blast
  have tr4: "trace s4 = trace s @ [ConsoleTime k, Invoke (func v)] @ ws @
       [if raises (F (func v)) then ConsoleError ev k else ConsoleTimeEnd k]"
    by (simp add: s4_def s3_def delete_subscriber_def emit_def ws(1) s1_def)
  have sub3: "subscribers s3 ev = Some m2" by (simp add: s3_def emit_def m2(1))
  from nth_extends[OF m2(2) assms(3,4)] obtain v' where v': "i < length m2" "m2 ! i = Some (k, v')"
    by auto
  define m4 where "m4 = (if transient v = Some True then m2[i := None] else m2)"
  have "map_delete m2 k = m2[i := None]"
    using m2(3) v' by (intro map_delete_nth[where v = v']) (auto simp: live_keys_def)
  then have sub4: "subscribers s4 ev = Some m4"
    by (simp add: s4_def m4_def delete_subscriber_def sub3 eventSubscribers_def)
  have d4: "distinct (live_keys m4)"
    using m2(3) v'(1) distinct_update_None[of m2 i] by (simp add: m4_def live_keys_def)
  have "drop (Suc i) m4 = drop (Suc i) m2" by (simp add: m4_def)
  then have k4: "live_keys (drop (Suc i) m4) = live_keys (drop (Suc i) m) @ List.map_filter id ext"
    using live_keys_drop_extends[OF m2(2), of "Suc i"] assms(3) by simp
  have gone: "transient v = Some True \<longrightarrow> k \<notin> set (live_keys m4)"
    using not_live_after_update_None[OF m2(3) v'] by (simp add: m4_def)
  have new: "subscription_key x name \<in> set (List.map_filter id ext)"
    if c: "CallSubscribe x ev name g tr \<in> set (calls (F (func v)))"
      and fresh: "subscription_key x name \<notin> set (live_keys m)" for x name g tr
  proof -
    let ?key = "subscription_key x name"
    have es2: "eventSubscribers s2 ev = m2" by (simp add: eventSubscribers_def m2(1))
    have "?key \<in> set (live_keys m2)"
      using subscribed_key_live[OF c, of F s1] by (simp add: s2_def[symmetric] es2)
    moreover have "live_keys m2 = live_keys (take (Suc i) m2) @ live_keys (drop (Suc i) m2)"
      using entries_take_drop[of m2 "Suc i"] by (simp add: live_keys_def)
    moreover have "live_keys (take (Suc i) m2) = live_keys (take (Suc i) m)"
      using live_keys_take_extends[OF m2(2), of "Suc i"] assms(3) by simp
    moreover have "set (live_keys (take (Suc i) m)) \<subseteq> set (live_keys m)"
      using entries_take_drop[of m "Suc i"] by (auto simp: live_keys_def)
    moreover have "live_keys (drop (Suc i) m2) = live_keys (drop (Suc i) m) @ List.map_filter id ext"
      using live_keys_drop_extends[OF m2(2), of "Suc i"] assms(3) by simp
    moreover have "set (live_keys (drop (Suc i) m)) \<subseteq> set (live_keys m)"
      using entries_take_drop[of m "Suc i"] by (auto simp: live_keys_def)
    ultimately show ?thesis using fresh by auto
  qed
  show ?thesis
    using step tr4 ws(2) sub4 d4 k4 gone new by blast
qed

lemma loop_visits_registered:
  assumes "processEvent_loop n F ev i s = Some s'" "subscribers s ev = Some m"
    "distinct (live_keys m)"
  shows "\<exists>t rest. trace s' = trace s @ t \<and> identities t = live_keys (drop i m) @ rest"
  using assms
proof (induction n arbitrary: i s m)
  case 0
  then show ?case by simp
next
  case (Suc n)
  have es: "eventSubscribers s ev = m" using Suc.prems(2) by (simp add: eventSubscribers_def)
  show ?case
  proof (cases "length m \<le> i")
    case True
    with Suc.prems es show ?thesis by (simp add: live_keys_def)
  next
    case False
    then have i: "i < length m" by simp
    have dr: "drop i m = m ! i # drop (Suc i) m" using i by (simp add: Cons_nth_drop_Suc)
    show ?thesis
    proof (cases "m ! i")
      case None
      with Suc.prems(1) i es have "processEvent_loop n F ev (Suc i) s = Some s'" by simp
      from Suc.IH[OF this Suc.prems(2,3)] show ?thesis
        by (simp add: dr None live_keys_def)
    next
      case (Some e)
      obtain k v where e: "e = (k, v)" by (cases e)
      from loop_step[OF Suc.prems(2,3) i, of k v n F] Some e
      obtain s4 ws m4 ext where st:
        "processEvent_loop (Suc n) F ev i s = processEvent_loop n F ev (Suc i) s4"
        "trace s4 = trace s @ [ConsoleTime k, Invoke (func v)] @ ws @
           [if raises (F (func v)) then ConsoleError ev k else ConsoleTimeEnd k]"
        "identities ws = []" "subscribers s4 ev = Some m4" "distinct (live_keys m4)"
        "live_keys (drop (Suc i) m4) = live_keys (drop (Suc i) m) @ ext"
        by auto
      from st(1) Suc.prems(1) have "processEvent_loop n F ev (Suc i) s4 = Some s'" by (simp only:)
      from Suc.IH[OF this st(4,5)] obtain t rest where
        t: "trace s' = trace s4 @ t" "identities t = live_keys (drop (Suc i) m4) @ rest" by blast
      define u where "u = [ConsoleTime k, Invoke (func v)] @ ws @
           [if raises (F (func v)) then ConsoleError ev k else ConsoleTimeEnd k] @ t"
      have "trace s' = trace s @ u" by (simp add: t(1) st(2) u_def)
      moreover have "live_keys (drop i m) = k # live_keys (drop (Suc i) m)"
        by (simp add: dr Some e live_keys_def)
      then have "identities u = live_keys (drop i m) @ (ext @ rest)"
        by (simp add: u_def identities_append st(3) t(2) st(6))
      ultimately show ?thesis by blast
    qed
  qed
qed

lemma processEvent_visits_registered:
  assumes "processEvent n F ev s = Some s'" "distinct (live_keys (eventSubscribers s ev))"
  shows "\<exists>t rest. trace s' = trace s @ ConsoleTimeEvent ev # t @ [ConsoleTimeEndEvent ev] \<and>
           identities t = live_keys (eventSubscribers s ev) @ rest"
proof -
  define s0 where "s0 = emit (ConsoleTimeEvent ev) (getSubscribers ev s)"
  have sub0: "subscribers s0 ev = Some (eventSubscribers s ev)"
    by (auto simp: s0_def emit_def getSubscribers_def eventSubscribers_def split: option.splits)
  have tr0: "trace s0 = trace s @ [ConsoleTimeEvent ev]"
    by (auto simp: s0_def emit_def getSubscribers_def split: option.splits)
  from assms(1) obtain s1 where s1: "processEvent_loop n F ev 0 s0 = Some s1"
    "s' = emit (ConsoleTimeEndEvent ev) s1"
    by (auto simp: processEvent_def s0_def split: option.splits)
  from loop_visits_registered[OF s1(1) sub0 assms(2)] obtain t rest where
    "trace s1 = trace s0 @ t" "identities t = live_keys (eventSubscribers s ev) @ rest"
    by auto
  then show ?thesis by (auto simp: s1(2) tr0)
qed










lemma eventSubscribers_subscribe_all_fresh:
  assumes "distinct (map (\<lambda>c. (fst c, fst (snd c))) cs)"
    and "\<forall>c \<in> set cs. CHR '' '' \<notin> set (fst c)"
    and "subscribers s event = None"
  shows "eventSubscribers (subscribe_all event cs s) event = map Some (map subscription_entry cs)"
proof -
  have d: "distinct (map (fst \<circ> subscription_entry) cs)"
    using assms(1,2) by (rule distinct_subscription_keys)
  have m0: "eventSubscribers s event = []" using assms(3) by (simp add: eventSubscribers_def)
  have "eventSubscribers (subscribe_all event cs s) event =
      fold (\<lambda>e m. map_set m (fst e) (snd e)) (map subscription_entry cs) []"
    by (simp add: eventSubscribers_subscribe_all m0 fold_map comp_def)
  also have "\<dots> = map Some (map subscription_entry cs)"
    using d by (subst fold_map_set_fresh) (auto simp: comp_def)
  finally show ?thesis .
qed

section \<open>Facts about the example values\<close>

lemma example_instance_subscribers:
  "subscribers example_instance connected =
     Some [Some (''ext.a - refresh'', \<lparr>func = 0, transient = None\<rparr>),
           Some (''ext.b - notify'', \<lparr>func = 1, transient = Some True\<rparr>)]"
  by (simp add: example_instance_def example_calls_def subscribe_all_def subscribe_def
      set_subscriber_def getSubscribers_def eventSubscribers_def new_Instance_def
      subscription_key_def Let_def)

lemma example_instance_eventSubscribers:
  "eventSubscribers example_instance connected =
     [Some (''ext.a - refresh'', \<lparr>func = 0, transient = None\<rparr>),
      Some (''ext.b - notify'', \<lparr>func = 1, transient = Some True\<rparr>)]"
  by (simp add: eventSubscribers_def example_instance_subscribers)

lemma example_instance_trace: "trace example_instance = []"
  by (simp add: example_instance_def trace_subscribe_all new_Instance_def)

lemma example_instance_well_formed:
  "distinct (live_keys (eventSubscribers example_instance connected))"
  by (simp add: example_instance_eventSubscribers live_keys_def)

lemmas run_defs = processEvent_def eventSubscribers_def getSubscribers_def emit_def
  invoke_def subscribe_def set_subscriber_def delete_subscriber_def subscription_key_def Let_def



lemma string_of_nat_digits: "string_of_nat 0 = ''0''" "string_of_nat (Suc 0) = ''1''"
  by code_simp+

lemma example_deprecated_keys:
  "deprecated_key (fname (example_funcs 0)) 0 = ''deprecated - f1_0''"
  "deprecated_key (fname (example_funcs 0)) (Suc 0) = ''deprecated - f1_1''"
  by (simp_all add: deprecated_key_def example_funcs_def string_of_nat_digits)

lemma new_Instance_fields:
  "eventSubscribers new_Instance ev = []" "deprecationCount new_Instance = 0"
  "trace new_Instance = []"
  by (simp_all add: new_Instance_def eventSubscribers_def)

lemma example_connected_fields:
  "connection example_connected = Some example_old"
  "trace example_connected =
     [SetDisconnectedCallback 1, AssignConnection (Some 1), SetConnectionName ''dev'',
      SetLastConnection ''dev'', Fire connected, SetContext ''code-for-ibmi:connected'' True]"
  "disposed example_connected = {}"
  by (simp_all add: example_connected_def setConnection_def fire_def emit_def Let_def
      new_Instance_def example_old_def)

section \<open>Facts about the lifecycle\<close>

lemma trace_setConnection_None:
  "trace (setConnection None s) = trace s @
     (case connection s of Some old \<Rightarrow> [Dispose (hid old)] | None \<Rightarrow> []) @
     [AssignConnection None, SetConnectionName [], SetContext ''code-for-ibmi:connected'' False]"
  by (simp add: setConnection_def dispose_def split: option.splits)

lemma fields_setConnection_None:
  "connection (setConnection None s) = None" "storageConnectionName (setConnection None s) = []"
  "lastConnection (setConnection None s) = lastConnection s"
  "disposed (setConnection None s) =
     (case connection s of Some old \<Rightarrow> insert (hid old) (disposed s) | None \<Rightarrow> disposed s)"
  by (simp_all add: setConnection_def dispose_def split: option.splits)

lemma trace_setConnection_Some:
  "trace (setConnection (Some c) s) = trace s @
     (case connection s of Some old \<Rightarrow> [Dispose (hid old)] | None \<Rightarrow> []) @
     [SetDisconnectedCallback (hid c), AssignConnection (Some (hid c)),
      SetConnectionName (currentConnectionName c), SetLastConnection (currentConnectionName c),
      Fire connected, SetContext ''code-for-ibmi:connected'' True]"
  by (simp add: setConnection_def dispose_def fire_def Let_def split: option.splits)

lemma fields_setConnection_Some:
  "connection (setConnection (Some c) s) = Some c"
  "storageConnectionName (setConnection (Some c) s) = currentConnectionName c"
  "lastConnection (setConnection (Some c) s) = currentConnectionName c"
  by (simp_all add: setConnection_def dispose_def fire_def Let_def split: option.splits)

lemma setConnection_Some_moment:
  "\<exists>mid. setConnection (Some c) s = emit (SetContext ''code-for-ibmi:connected'' True) (fire connected mid) \<and>
     connection mid = Some c \<and> lastConnection mid = currentConnectionName c \<and>
     storageConnectionName mid = currentConnectionName c"
  by (cases "connection s"; simp add: setConnection_def Let_def)
     (rule exI, rule conjI, rule refl, simp)+

lemma trace_disconnect:
  "trace (disconnect s) = trace s @
     (case connection s of Some old \<Rightarrow> [Dispose (hid old)] | None \<Rightarrow> []) @
     [AssignConnection None, SetConnectionName [], SetContext ''code-for-ibmi:connected'' False,
      ExecuteCommand ''code-for-ibmi.refreshObjectBrowser'',
      ExecuteCommand ''code-for-ibmi.refreshLibraryListView'',
      ExecuteCommand ''code-for-ibmi.refreshIFSBrowser'']"
  by (simp add: disconnect_def Let_def trace_setConnection_None)

lemma fields_disconnect:
  "connection (disconnect s) = None" "storageConnectionName (disconnect s) = []"
  "lastConnection (disconnect s) = lastConnection s"
  "disposed (disconnect s) =
     (case connection s of Some old \<Rightarrow> insert (hid old) (disposed s) | None \<Rightarrow> disposed s)"
  by (simp_all add: disconnect_def Let_def fields_setConnection_None)

text \<open>What the failed rounds before the last round of the loop leave behind.\<close>

lemma connect_loop_rounds:
  assumes "connect_loop conn rec script s = Some (result, s')"
  shows "\<exists>mid pre. trace mid = trace s @ pre \<and> Fire connected \<notin> set pre \<and>
           (\<forall>h. AssignConnection (Some h) \<notin> set pre) \<and>
           (mid = s \<and> pre = [] \<or> connection mid = None \<and>
              (\<forall>old. connection s = Some old \<longrightarrow> Dispose (hid old) \<in> set pre)) \<and>
           (success result \<longrightarrow> s' = setConnection (Some conn) mid) \<and>
           (\<not> success result \<longrightarrow> s' = disconnect mid \<or>
              s' = emit (ShowWarningMessage ''Could not reconnect'') (disconnect mid))"
  using assms
proof (induction script arbitrary: s rec)
  case Nil
  then show ?case by simp
next
  case (Cons ay script)
  obtain a yes where ay: "ay = (a, yes)" by (cases ay)
  note prem = Cons.prems[unfolded ay]
  define r where "r = (case a of Returns r \<Rightarrow> r | Throws e \<Rightarrow> \<lparr>success = False, error = None\<rparr>)"
  show ?case
  proof (cases "success r")
    case True
    with prem have "result = r" "s' = setConnection (Some conn) s" by (auto simp: r_def Let_def)
    with True show ?thesis by (intro exI[of _ s] exI[of _ "[]"]) simp
  next
    case False
    define s2 where "s2 = emit (ShowWarningMessage ''Could not reconnect'') (disconnect s)"
    show ?thesis
    proof (cases "rec = Some True \<and> yes")
      case True
      with False prem have loop: "connect_loop conn (Some True) script s2 = Some (result, s')"
        by (simp add: r_def Let_def s2_def)
      from Cons.IH[OF loop]
      obtain mid pre where IH: "trace mid = trace s2 @ pre" "Fire connected \<notin> set pre"
        "\<forall>h. AssignConnection (Some h) \<notin> set pre"
        "mid = s2 \<and> pre = [] \<or> connection mid = None \<and> (\<forall>old. connection s2 = Some old \<longrightarrow> Dispose (hid old) \<in> set pre)"
        "success result \<longrightarrow> s' = setConnection (Some conn) mid"
        "\<not> success result \<longrightarrow> s' = disconnect mid \<or>
              s' = emit (ShowWarningMessage ''Could not reconnect'') (disconnect mid)"
        by (elim exE conjE)
      define X where "X = (case connection s of Some old \<Rightarrow> [Dispose (hid old)] | None \<Rightarrow> []) @
         [AssignConnection None, SetConnectionName [], SetContext ''code-for-ibmi:connected'' False,
          ExecuteCommand ''code-for-ibmi.refreshObjectBrowser'',
          ExecuteCommand ''code-for-ibmi.refreshLibraryListView'',
          ExecuteCommand ''code-for-ibmi.refreshIFSBrowser'',
          ShowWarningMessage ''Could not reconnect'']"
      have tr2: "trace s2 = trace s @ X"
        by (simp add: s2_def trace_disconnect X_def)
      have c2: "connection s2 = None" by (simp add: s2_def fields_disconnect)
      have g1: "trace mid = trace s @ (X @ pre)" using IH(1) tr2 by simp
      have g2: "Fire connected \<notin> set (X @ pre)"
        using IH(2) by (simp add: X_def split: option.splits)
      have g3: "\<forall>h. AssignConnection (Some h) \<notin> set (X @ pre)"
        using IH(3) by (simp add: X_def split: option.splits)
      have "connection mid = None" using IH(4) c2 by auto
      moreover have "\<forall>old. connection s = Some old \<longrightarrow> Dispose (hid old) \<in> set (X @ pre)"
        by (simp add: X_def)
      ultimately have g4: "mid = s \<and> X @ pre = [] \<or> connection mid = None \<and>
              (\<forall>old. connection s = Some old \<longrightarrow> Dispose (hid old) \<in> set (X @ pre))"
        by (intro disjI2 conjI)
      show ?thesis
        by (intro exI[of _ mid] exI[of _ "X @ pre"] conjI g1 g2 g3 g4 IH(5) IH(6))
    next
      case stop: False
      with False prem have "result = r"
        "s' = (if rec = Some True then s2 else disconnect s)"
        by (auto simp: r_def Let_def s2_def split: if_splits)
      with False show ?thesis
        by (intro exI[of _ s] exI[of _ "[]"]) (simp add: s2_def)
    qed
  qed
qed

lemma connect_loop_throw:
  "connect_loop conn rec (rounds @ (Throws e, yes) # rest) s =
   connect_loop conn rec (rounds @ (Returns \<lparr>success = False, error = None\<rparr>, yes) # rest) s"
proof (induction rounds arbitrary: s rec)
  case Nil
  show ?case by simp
next
  case (Cons ay rounds)
  obtain a y where ay: "ay = (a, y)" by (cases ay)
  show ?case by (simp add: ay Cons.IH Let_def)
qed

lemma count_list_absent: "x \<notin> set xs \<Longrightarrow> count_list xs x = 0"
  by (induction xs) auto

lemma count_list_app: "count_list (xs @ ys) x = count_list xs x + count_list ys x"
  by (induction xs) auto

lemma check_documents_effects:
  "\<exists>t. check_documents documents d s =
          (d \<and> \<not> (\<exists>x \<in> set documents. unsaved x), s\<lparr>trace := trace s @ t\<rparr>) \<and>
        (\<forall>e \<in> set t. editor_effect e) \<and>
        count_list t (ShowErrorMessage ''Cannot disconnect while files have not been saved.'') =
          (if d \<and> (\<exists>x \<in> set documents. unsaved x) then 1 else 0)"
proof (induction documents arbitrary: d s)
  case Nil
  show ?case by (intro exI[of _ "[]"]) simp
next
  case (Cons x xs)
  let ?msg = "ShowErrorMessage ''Cannot disconnect while files have not been saved.''"
  let ?close = "ExecuteCommand ''workbench.action.closeActiveEditor''"
  define s0 where "s0 = emit (ConsoleLog (doc x)) s"
  define d1 where "d1 = (d \<and> \<not> unsaved x)"
  define u where "u = (if \<not> isClosed x \<and> scheme x \<in> set [''member'', ''streamfile'']
     then if isDirty x then (if d then [?msg, ShowTextDocument (doc x)] else [])
          else [ShowTextDocument (doc x), ?close]
     else [])"
  define s1 where "s1 = s\<lparr>trace := trace s @ ConsoleLog (doc x) # u\<rparr>"
  have step: "check_documents (x # xs) d s = check_documents xs d1 s1"
    by (auto simp: s0_def d1_def s1_def u_def unsaved_def emit_def Let_def)
  from Cons.IH[of d1 s1] obtain t where t: "check_documents xs d1 s1 =
          (d1 \<and> \<not> (\<exists>x \<in> set xs. unsaved x), s1\<lparr>trace := trace s1 @ t\<rparr>)"
    "\<forall>e \<in> set t. editor_effect e"
    "count_list t ?msg = (if d1 \<and> (\<exists>x \<in> set xs. unsaved x) then 1 else 0)" by blast
  have st: "s1\<lparr>trace := trace s1 @ t\<rparr> = s\<lparr>trace := trace s @ (ConsoleLog (doc x) # u @ t)\<rparr>"
    by (simp add: s1_def)
  have eu: "\<forall>e \<in> set u. editor_effect e" by (auto simp: u_def)
  have cu: "count_list u ?msg = (if d \<and> unsaved x then 1 else 0)"
    by (auto simp: u_def unsaved_def)
  show ?case
    unfolding step t(1) st
    using t(2,3) eu cu
    by (intro exI[of _ "ConsoleLog (doc x) # u @ t"]) (auto simp: d1_def count_list_app)
qed

lemma setConnection_None_resume:
  "setConnection None s =
     setConnection_resume (case connection s of Some old \<Rightarrow> dispose old s | None \<Rightarrow> s)"
  by (simp add: setConnection_def setConnection_resume_def)



section \<open>Facts about fires that overlap\<close>

text \<open>A run that is resumed to its end with no other step in between is a run of
  \<open>processEvent\<close> as the loop above has it.\<close>

lemma next_entry_here:
  assumes "i < length m" "m ! i = Some (k, v)"
  shows "next_entry (drop i m) j = Some (j, k, v)"
proof -
  have "drop i m = Some (k, v) # drop (Suc i) m"
    using Cons_nth_drop_Suc[OF assms(1)] assms(2) by simp
  then show ?thesis by simp
qed

lemma next_entry_skip:
  assumes "i < length m" "m ! i = None"
  shows "next_entry (drop i m) j = next_entry (drop (Suc i) m) (Suc j)"
proof -
  have "drop i m = None # drop (Suc i) m"
    using Cons_nth_drop_Suc[OF assms(1)] assms(2) by simp
  then show ?thesis by simp
qed

lemma advance_loop:
  assumes "processEvent_loop n F ev i s = Some s'"
  shows "\<exists>k. interleaved F (replicate k (Resumes 0))
           ([fst (processEvent_advance F ev i s)], snd (processEvent_advance F ev i s)) =
         ([None], emit (ConsoleTimeEndEvent ev) s')"
  using assms
proof (induction n arbitrary: i s)
  case 0
  then show ?case by simp
next
  case (Suc n)
  let ?m = "eventSubscribers s ev"
  show ?case
  proof (cases "length ?m \<le> i")
    case True
    with Suc.prems have "s' = s" by simp
    moreover have "processEvent_advance F ev i s = (None, emit (ConsoleTimeEndEvent ev) s)"
      using True by (simp add: processEvent_advance_def)
    ultimately show ?thesis by (intro exI[of _ 0]) simp
  next
    case False
    then have i: "i < length ?m" by simp
    show ?thesis
    proof (cases "?m ! i")
      case None
      with Suc.prems i have "processEvent_loop n F ev (Suc i) s = Some s'" by simp
      from Suc.IH[OF this] obtain k where
        "interleaved F (replicate k (Resumes 0))
           ([fst (processEvent_advance F ev (Suc i) s)], snd (processEvent_advance F ev (Suc i) s)) =
         ([None], emit (ConsoleTimeEndEvent ev) s')" by blast
      moreover have "processEvent_advance F ev i s = processEvent_advance F ev (Suc i) s"
        by (simp add: processEvent_advance_def next_entry_skip[OF i None])
      ultimately show ?thesis by auto
    next
      case (Some e)
      obtain k0 v where e: "e = (k0, v)" by (cases e)
      have step: "processEvent_loop (Suc n) F ev i s =
          processEvent_loop n F ev (Suc i) (processEvent_body F ev k0 v s)"
        using i Some e by (simp add: processEvent_body_def Let_def split: prod.splits)
      with Suc.prems have "processEvent_loop n F ev (Suc i) (processEvent_body F ev k0 v s) = Some s'"
        by (simp only:)
      from Suc.IH[OF this] obtain k where k:
        "interleaved F (replicate k (Resumes 0))
           ([fst (processEvent_advance F ev (Suc i) (processEvent_body F ev k0 v s))],
            snd (processEvent_advance F ev (Suc i) (processEvent_body F ev k0 v s))) =
         ([None], emit (ConsoleTimeEndEvent ev) s')" by blast
      define r where "r = \<lparr>s_event = ev, s_position = Suc i, s_identity = k0, s_callable = v\<rparr>"
      define s2 where "s2 = snd (invoke F (func v) (emit (ConsoleTime k0) s))"
      have adv: "processEvent_advance F ev i s = (Some r, s2)"
        using Some e
        by (simp add: processEvent_advance_def next_entry_here[OF i] r_def s2_def Let_def
            split: prod.splits)
      have res: "processEvent_resume F r s2 =
          processEvent_advance F ev (Suc i) (processEvent_body F ev k0 v s)"
        by (simp add: processEvent_resume_def processEvent_body_def r_def s2_def Let_def invoke_def)
      have "interleaved F (replicate (Suc k) (Resumes 0)) ([Some r], s2) =
          ([None], emit (ConsoleTimeEndEvent ev) s')"
        using k by (simp add: res case_prod_beta)
      then show ?thesis unfolding adv by (intro exI[of _ "Suc k"]) simp
    qed
  qed
qed

lemma interleaved_alone:
  assumes "processEvent n F ev (fire ev s) = Some s'"
  shows "\<exists>k. interleaved F (Fires ev # replicate k (Resumes 0)) ([], s) = ([None], s')"
proof -
  define s0 where "s0 = emit (ConsoleTimeEvent ev) (getSubscribers ev (fire ev s))"
  from assms obtain s1 where s1: "processEvent_loop n F ev 0 s0 = Some s1"
    "s' = emit (ConsoleTimeEndEvent ev) s1"
    by (auto simp: processEvent_def s0_def split: option.splits)
  from advance_loop[OF s1(1)] obtain k where
    "interleaved F (replicate k (Resumes 0))
           ([fst (processEvent_advance F ev 0 s0)], snd (processEvent_advance F ev 0 s0)) =
         ([None], s')" by (auto simp: s1(2))
  then have "interleaved F (Fires ev # replicate k (Resumes 0)) ([], s) = ([None], s')"
    by (simp add: processEvent_start_def s0_def case_prod_beta)
  then show ?thesis by blast
qed

section \<open>Facts about fires that follow one another\<close>

text \<open>
  When the handlers make no registry calls, the first fire visits every entry; after it
  the collection holds the entries that stay (\<open>stays\<close>: the transient flag is not
  \<open>true\<close>), and each of any number \<open>j\<close> of fires that follow, one after the other,
  visits exactly those. Whether a handler throws (\<open>raises\<close>) is arbitrary.
\<close>

lemma transient_removed_between_fires:
  assumes "distinct (live_keys (eventSubscribers s event))"
    and "\<forall>e \<in> set (entries (eventSubscribers s event)). calls (F (func (snd e))) = []"
    and "length (eventSubscribers s event) < n"
  shows "\<exists>s1. processEvent n F event s = Some s1 \<and>
           trace s1 = trace s @ fire_trace F event (entries (eventSubscribers s event)) \<and>
           entries (eventSubscribers s1 event) = filter stays (entries (eventSubscribers s event)) \<and>
           (\<forall>j. \<exists>s2. processEvent_times j n F event s1 = Some s2 \<and>
              entries (eventSubscribers s2 event) = filter stays (entries (eventSubscribers s event)) \<and>
              trace s2 = trace s1 @
                concat (replicate j (fire_trace F event (filter stays (entries (eventSubscribers s event))))))"
proof -
  let ?m = "eventSubscribers s event"
  define s1 where "s1 = s\<lparr>subscribers := (subscribers s)(event \<mapsto> sweep ?m),
             trace := trace s @ fire_trace F event (entries ?m)\<rparr>"
  have first: "processEvent n F event s = Some s1"
    unfolding s1_def using assms by (intro processEvent_fire_trace) auto
  have m1: "eventSubscribers s1 event = sweep ?m"
    by (simp add: s1_def eventSubscribers_def)
  have d1: "distinct (live_keys (eventSubscribers s1 event))"
    using assms(1) by (simp add: m1 distinct_sweep)
  have p1: "\<forall>e \<in> set (entries (eventSubscribers s1 event)). calls (F (func (snd e))) = []"
    using assms(2) by (simp add: m1 entries_sweep)
  have l1: "length (eventSubscribers s1 event) < n"
    using assms(3) by (simp add: m1 length_sweep)
  have again: "\<exists>s2. processEvent_times j n F event s1 = Some s2 \<and>
      entries (eventSubscribers s2 event) = filter stays (entries ?m) \<and>
      trace s2 = trace s1 @ concat (replicate j (fire_trace F event (filter stays (entries ?m))))" for j
  proof (cases j)
    case 0
    then show ?thesis by (simp add: m1 entries_sweep)
  next
    case (Suc i)
    define s2 where "s2 = s1\<lparr>subscribers := (subscribers s1)(event \<mapsto> sweep (eventSubscribers s1 event)),
             trace := trace s1 @ fire_trace F event (entries (eventSubscribers s1 event)) @
               concat (replicate i (fire_trace F event (filter stays (entries (eventSubscribers s1 event)))))\<rparr>"
    have "processEvent_times (Suc i) n F event s1 = Some s2"
      unfolding s2_def by (rule processEvent_times_pure[OF d1 p1 l1])
    moreover have "eventSubscribers s2 event = sweep (eventSubscribers s1 event)"
      by (simp add: s2_def eventSubscribers_def)
    moreover have "trace s2 = trace s1 @
        concat (replicate (Suc i) (fire_trace F event (filter stays (entries ?m))))"
      by (simp add: s2_def m1 entries_sweep)
    ultimately show ?thesis
      by (simp add: Suc m1 sweep_sweep entries_sweep)
  qed
  show ?thesis
    using first again by (simp add: m1 entries_sweep) (simp add: s1_def)
qed

text \<open>
  A call of \<open>subscribe\<close> with a key that is registered replaces the stored handler and
  flag in place: the keys of the collection, in order, are what they were. Whatever the
  handlers do, a fire that starts on the collection as the call has left it and ends has
  invoked the keys in that order first; when the handlers make no registry calls, it
  invokes the new handler once, at the old position.
\<close>

lemma subscribe_again_in_place:
  assumes "distinct (live_keys (eventSubscribers s event))"
    and "subscription_key extension_id name \<in> set (live_keys (eventSubscribers s event))"
  shows "entries (eventSubscribers (subscribe extension_id event name f tr s) event) =
           map (\<lambda>(k, v). if k = subscription_key extension_id name
                          then (k, \<lparr>func = f, transient = tr\<rparr>) else (k, v))
             (entries (eventSubscribers s event)) \<and>
         live_keys (eventSubscribers (subscribe extension_id event name f tr s) event) =
           live_keys (eventSubscribers s event) \<and>
         (\<forall>n s'. processEvent n F event (subscribe extension_id event name f tr s) = Some s' \<longrightarrow>
            (\<exists>t rest. trace s' = trace s @ ConsoleTimeEvent event # t @ [ConsoleTimeEndEvent event] \<and>
               identities t = live_keys (eventSubscribers s event) @ rest)) \<and>
         ((\<forall>e \<in> set (entries (eventSubscribers s event)). calls (F (func (snd e))) = []) \<and>
          calls (F f) = [] \<and> length (eventSubscribers s event) < n \<longrightarrow>
            (\<exists>s'. processEvent n F event (subscribe extension_id event name f tr s) = Some s' \<and>
               trace s' = trace s @ fire_trace F event
                 (map (\<lambda>(k, v). if k = subscription_key extension_id name
                              then (k, \<lparr>func = f, transient = tr\<rparr>) else (k, v))
                 (entries (eventSubscribers s event)))))"
proof -
  let ?k = "subscription_key extension_id name"
  let ?m = "eventSubscribers s event"
  let ?s = "subscribe extension_id event name f tr s"
  let ?g = "\<lambda>(k, v). if k = ?k then (k, \<lparr>func = f, transient = tr\<rparr>) else (k, v)"
  have m': "eventSubscribers ?s event = map_set ?m ?k \<lparr>func = f, transient = tr\<rparr>"
    by (simp add: subscribe_def eventSubscribers_set_subscriber)
  have ent: "entries (eventSubscribers ?s event) = map ?g (entries ?m)"
    unfolding m' using assms(1,2)
    by (subst entries_map_set_present) (auto simp: live_keys_def intro!: map_cong)
  have keys: "live_keys (eventSubscribers ?s event) = live_keys ?m"
    unfolding m' by (rule live_keys_map_set_present[OF assms(2) assms(1)])
  have tr: "trace ?s = trace s" by (simp add: subscribe_def trace_set_subscriber)
  have general: "\<exists>t rest. trace s' = trace s @ ConsoleTimeEvent event # t @ [ConsoleTimeEndEvent event] \<and>
               identities t = live_keys ?m @ rest"
    if "processEvent n F event ?s = Some s'" for n s'
    using processEvent_visits_registered[OF that] assms(1) by (simp add: keys tr)
  have exact: "\<exists>s'. processEvent n F event ?s = Some s' \<and>
               trace s' = trace s @ fire_trace F event (map ?g (entries ?m))"
    if p: "(\<forall>e \<in> set (entries ?m). calls (F (func (snd e))) = []) \<and>
          calls (F f) = [] \<and> length ?m < n"
  proof -
    have pure: "\<forall>e \<in> set (entries (eventSubscribers ?s event)). calls (F (func (snd e))) = []"
      using p by (auto simp: ent)
    have "processEvent n F event ?s =
       Some (?s\<lparr>subscribers := (subscribers ?s)(event \<mapsto> sweep (eventSubscribers ?s event)),
               trace := trace ?s @ fire_trace F event (entries (eventSubscribers ?s event))\<rparr>)"
      using assms p pure
      by (intro processEvent_fire_trace) (auto simp: keys, simp add: m' length_map_set_present)
    then show ?thesis by (simp add: ent tr)
  qed
  show ?thesis using ent keys general exact by blast
qed

section \<open>Claims\<close>

subsection \<open>C1\<close>

text \<open>
  C1. For every sequence of \<open>subscribe\<close> calls with distinct (ownerKey, name) keys on one
  event kind, firing the event invokes every registered handler, strictly in the order in
  which the entries were inserted, one after the other.

  \<open>cs\<close> is the sequence of calls (owner, name, function, transient flag), made on an
  instance that has no subscribers for the event yet. Owner keys are extension
  identifiers, which contain no space, so that distinct pairs give distinct map keys.
  The statement is about \<open>processEvent\<close>, which is what the emitter runs when the event
  is fired, and it has two parts.
  \<^item> Whatever the handlers do, calls of \<open>subscribe\<close> and \<open>onEvent\<close> included: when the
    run ends, the identities it has invoked begin with the keys of the calls, in the order
    of the calls.
  \<^item> When the handlers make no such calls, the run ends within one step per entry and one
    more, and its trace is one block per call, in the order of the calls; in each block
    the handler is invoked and its completion is recorded (\<open>ConsoleTimeEnd\<close>, or
    \<open>ConsoleError\<close> when it threw) before the next block begins.
\<close>

theorem fire_in_insertion_order:
  assumes "distinct (map (\<lambda>c. (fst c, fst (snd c))) cs)"
    and "\<forall>c \<in> set cs. CHR '' '' \<notin> set (fst c)"
    and "subscribers s event = None"
  shows "(\<forall>n s'. processEvent n F event (subscribe_all event cs s) = Some s' \<longrightarrow>
            (\<exists>t rest. trace s' = trace s @ ConsoleTimeEvent event # t @ [ConsoleTimeEndEvent event] \<and>
               identities t = map (fst \<circ> subscription_entry) cs @ rest)) \<and>
         ((\<forall>c \<in> set cs. calls (F (fst (snd (snd c)))) = []) \<longrightarrow>
            (\<exists>s'. processEvent (Suc (length cs)) F event (subscribe_all event cs s) = Some s' \<and>
               trace s' = trace s @ fire_trace F event (map subscription_entry cs)))"
proof (intro conjI allI impI)
  let ?s = "subscribe_all event cs s"
  have d: "distinct (map (fst \<circ> subscription_entry) cs)"
    using assms(1,2) by (rule distinct_subscription_keys)
  have m: "eventSubscribers ?s event = map Some (map subscription_entry cs)"
    using assms by (rule eventSubscribers_subscribe_all_fresh)
  have keys: "live_keys (eventSubscribers ?s event) = map (fst \<circ> subscription_entry) cs"
    by (simp add: m live_keys_def entries_map_Some_comp)
  {
    fix n s'
    assume "processEvent n F event ?s = Some s'"
    from processEvent_visits_registered[OF this] d
    show "\<exists>t rest. trace s' = trace s @ ConsoleTimeEvent event # t @ [ConsoleTimeEndEvent event] \<and>
               identities t = map (fst \<circ> subscription_entry) cs @ rest"
      by (simp add: keys trace_subscribe_all)
  }
  assume pure0: "\<forall>c \<in> set cs. calls (F (fst (snd (snd c)))) = []"
  have pure: "\<forall>e \<in> set (entries (eventSubscribers ?s event)). calls (F (func (snd e))) = []"
    using pure0 by (auto simp: m entries_map_Some_comp subscription_entry_def split: prod.splits)
  have "processEvent (Suc (length cs)) F event ?s =
     Some (?s\<lparr>subscribers := (subscribers ?s)(event \<mapsto> sweep (eventSubscribers ?s event)),
             trace := trace ?s @ fire_trace F event (entries (eventSubscribers ?s event))\<rparr>)"
    using d pure by (intro processEvent_fire_trace) (auto simp: keys, simp add: m)
  then show "\<exists>s'. processEvent (Suc (length cs)) F event ?s = Some s' \<and>
               trace s' = trace s @ fire_trace F event (map subscription_entry cs)"
    by (simp add: m entries_map_Some_comp trace_subscribe_all)
qed

theorem fire_in_insertion_order_witness:
  "(\<exists>s'. processEvent 3 example_funcs connected
          (subscribe_all connected example_calls new_Instance) = Some s' \<and>
        trace s' =
          [ConsoleTimeEvent connected,
           ConsoleTime ''ext.a - refresh'', Invoke 0, ConsoleTimeEnd ''ext.a - refresh'',
           ConsoleTime ''ext.b - notify'', Invoke 1, ConsoleError connected ''ext.b - notify'',
           ConsoleTimeEndEvent connected]) \<and>
   (\<exists>s' t rest. processEvent 3 resubscribing_funcs connected
          (subscribe_all connected example_calls new_Instance) = Some s' \<and>
        trace s' = ConsoleTimeEvent connected # t @ [ConsoleTimeEndEvent connected] \<and>
        identities t = [''ext.a - refresh'', ''ext.b - notify''] @ rest)"
proof
  show "\<exists>s'. processEvent 3 example_funcs connected
          (subscribe_all connected example_calls new_Instance) = Some s' \<and>
        trace s' =
          [ConsoleTimeEvent connected,
           ConsoleTime ''ext.a - refresh'', Invoke 0, ConsoleTimeEnd ''ext.a - refresh'',
           ConsoleTime ''ext.b - notify'', Invoke 1, ConsoleError connected ''ext.b - notify'',
           ConsoleTimeEndEvent connected]"
    using fire_in_insertion_order [where cs = example_calls and F = example_funcs
        and s = new_Instance and event = connected]
    by (simp add: example_calls_def example_funcs_def new_Instance_def entry_trace_def fire_trace_def
        subscription_entry_def subscription_key_def numeral_3_eq_3)
next
  obtain s' where run: "processEvent 3 resubscribing_funcs connected
          (subscribe_all connected example_calls new_Instance) = Some s'"
    by (simp add: processEvent_def numeral_3_eq_3 example_instance_def[symmetric]
        example_instance_subscribers eventSubscribers_def getSubscribers_def emit_def
        invoke_def resubscribing_funcs_def subscribe_def set_subscriber_def
        delete_subscriber_def subscription_key_def Let_def)
  from fire_in_insertion_order [where cs = example_calls and F = resubscribing_funcs
        and s = new_Instance and event = connected] run
  show "\<exists>s' t rest. processEvent 3 resubscribing_funcs connected
          (subscribe_all connected example_calls new_Instance) = Some s' \<and>
        trace s' = ConsoleTimeEvent connected # t @ [ConsoleTimeEndEvent connected] \<and>
        identities t = [''ext.a - refresh'', ''ext.b - notify''] @ rest"
    by (simp add: example_calls_def new_Instance_def subscription_entry_def subscription_key_def)
qed

subsection \<open>C2\<close>

text \<open>
  C2. For every successful connect attempt, exactly one \<open>connected\<close> event fires, any
  previous current handle is disposed before the new handle is installed as current, and
  the last-connection record of the global storage equals the connection name of the new
  handle at the moment the event fires.

  The trace of a \<open>connect\<close> that returns a success ends with the six effects of
  installing the new handle, the assignment of \<open>this.connection\<close> second among them;
  what comes before (\<open>pre\<close>) holds no \<open>connected\<close> event and no installation, and it
  holds the disposal of the handle that was current when \<open>connect\<close> was called. \<open>mid\<close>
  is the instance at the moment \<open>fire\<close> is called: the new handle is current and
  \<open>lastConnection\<close> is its name. And \<open>connect\<close> does return when the attempt
  succeeds.
\<close>

theorem connect_success:
  "(connect conn options script s = Some (result, s') \<and> success result \<longrightarrow>
   (\<exists>pre mid.
     trace s' = trace s @ pre @
       [SetDisconnectedCallback (hid conn), AssignConnection (Some (hid conn)),
        SetConnectionName (currentConnectionName conn),
        SetLastConnection (currentConnectionName conn),
        Fire connected, SetContext ''code-for-ibmi:connected'' True] \<and>
     Fire connected \<notin> set pre \<and> (\<forall>h. AssignConnection (Some h) \<notin> set pre) \<and>
     (\<forall>old. connection s = Some old \<longrightarrow> Dispose (hid old) \<in> set pre) \<and>
     s' = emit (SetContext ''code-for-ibmi:connected'' True) (fire connected mid) \<and>
     connection mid = Some conn \<and> lastConnection mid = currentConnectionName conn \<and>
     connection s' = Some conn \<and> lastConnection s' = currentConnectionName conn \<and>
     count_list (trace s') (Fire connected) = Suc (count_list (trace s) (Fire connected)))) \<and>
   (success r \<longrightarrow>
      (\<exists>s''. connect conn options ((Returns r, yes) # rest) s = Some (r, s'')))"
proof (rule conjI[OF impI impI])
  assume assms: "connect conn options script s = Some (result, s') \<and> success result"
  define s0 where "s0 = emit OutputClear s"
  from assms have loop: "connect_loop conn (reconnecting options) script s0 = Some (result, s')"
    by (auto simp: connect_def s0_def split: option.splits)
  from connect_loop_rounds[OF loop] assms
  obtain m pre0 where r: "trace m = trace s0 @ pre0" "Fire connected \<notin> set pre0"
    "\<forall>h. AssignConnection (Some h) \<notin> set pre0"
    "m = s0 \<and> pre0 = [] \<or> connection m = None \<and>
       (\<forall>old. connection s0 = Some old \<longrightarrow> Dispose (hid old) \<in> set pre0)"
    "s' = setConnection (Some conn) m"
    by blast
  define D where "D = (case connection m of Some old \<Rightarrow> [Dispose (hid old)] | None \<Rightarrow> [])"
  define pre where "pre = OutputClear # pre0 @ D"
  let ?tail = "[SetDisconnectedCallback (hid conn), AssignConnection (Some (hid conn)),
        SetConnectionName (currentConnectionName conn),
        SetLastConnection (currentConnectionName conn),
        Fire connected, SetContext ''code-for-ibmi:connected'' True]"
  have t: "trace s' = trace s @ pre @ ?tail"
    by (simp add: r(5) trace_setConnection_Some r(1) s0_def pre_def D_def)
  have p1: "Fire connected \<notin> set pre"
    using r(2) by (simp add: pre_def D_def split: option.splits)
  have p2: "\<forall>h. AssignConnection (Some h) \<notin> set pre"
    using r(3) by (simp add: pre_def D_def split: option.splits)
  have p3: "\<forall>old. connection s = Some old \<longrightarrow> Dispose (hid old) \<in> set pre"
    using r(4) by (auto simp: pre_def D_def s0_def)
  obtain mid where mid: "s' = emit (SetContext ''code-for-ibmi:connected'' True) (fire connected mid)"
    "connection mid = Some conn" "lastConnection mid = currentConnectionName conn"
    using setConnection_Some_moment[of conn m] r(5) by auto
  have f: "connection s' = Some conn" "lastConnection s' = currentConnectionName conn"
    by (simp_all add: r(5) fields_setConnection_Some)
  have c: "count_list (trace s') (Fire connected) = Suc (count_list (trace s) (Fire connected))"
    using p1 by (simp add: t count_list_app count_list_absent)
  show "\<exists>pre mid.
     trace s' = trace s @ pre @
       [SetDisconnectedCallback (hid conn), AssignConnection (Some (hid conn)),
        SetConnectionName (currentConnectionName conn),
        SetLastConnection (currentConnectionName conn),
        Fire connected, SetContext ''code-for-ibmi:connected'' True] \<and>
     Fire connected \<notin> set pre \<and> (\<forall>h. AssignConnection (Some h) \<notin> set pre) \<and>
     (\<forall>old. connection s = Some old \<longrightarrow> Dispose (hid old) \<in> set pre) \<and>
     s' = emit (SetContext ''code-for-ibmi:connected'' True) (fire connected mid) \<and>
     connection mid = Some conn \<and> lastConnection mid = currentConnectionName conn \<and>
     connection s' = Some conn \<and> lastConnection s' = currentConnectionName conn \<and>
     count_list (trace s') (Fire connected) = Suc (count_list (trace s) (Fire connected))"
    by (intro exI[of _ pre] exI[of _ mid] conjI t p1 p2 p3 mid f c)
next
  assume "success r"
  then show "\<exists>s''. connect conn options ((Returns r, yes) # rest) s = Some (r, s'')"
    by (simp add: connect_def Let_def)
qed

theorem connect_success_witness:
  "\<exists>s'. connect example_new \<lparr>reconnecting = Some True\<rparr>
          [(Throws ''timeout'', True), (Returns \<lparr>success = True, error = None\<rparr>, False)]
          example_connected = Some (\<lparr>success = True, error = None\<rparr>, s') \<and>
        connection s' = Some example_new \<and> lastConnection s' = ''prod'' \<and>
        count_list (trace s') (Fire connected) = 2"
proof -
  obtain s' where run: "connect example_new \<lparr>reconnecting = Some True\<rparr>
          [(Throws ''timeout'', True), (Returns \<lparr>success = True, error = None\<rparr>, False)]
          example_connected = Some (\<lparr>success = True, error = None\<rparr>, s')"
    by (simp add: connect_def Let_def)
  from connect_success [THEN conjunct1, rule_format, OF conjI, OF run] show ?thesis
    using run by (auto simp: example_connected_fields example_new_def)
qed

subsection \<open>C3\<close>

text \<open>
  C3. For every connect attempt whose result has \<open>success = false\<close>, the handle of the
  attempt has been disposed when the caller receives the result (the disposal is the last
  effect in the trace), no \<open>connected\<close> event has been fired, and the orchestrator holds
  no current handle. A fault thrown by the attempt becomes this result: when the attempt
  throws and no retry follows (the connect is not a reconnect, or the user declines),
  \<open>connect\<close> returns \<open>success = false\<close>; and in any round of the retry loop a thrown
  fault has the effect of a returned \<open>success = false\<close>.
\<close>

theorem connect_failure:
  "(connect conn options script s = Some (result, s') \<and> \<not> success result \<longrightarrow>
      hid conn \<in> disposed s' \<and> (\<exists>t. trace s' = t @ [Dispose (hid conn)]) \<and>
      connection s' = None \<and> getConnection s' = None \<and> storageConnectionName s' = [] \<and>
      count_list (trace s') (Fire connected) = count_list (trace s) (Fire connected)) \<and>
   ((reconnecting options = Some True \<longrightarrow> \<not> yes) \<longrightarrow>
      (\<exists>s''. connect conn options ((Throws e, yes) # rest) s =
         Some (\<lparr>success = False, error = None\<rparr>, s''))) \<and>
   connect conn options (rounds @ (Throws e, yes) # rest) s =
     connect conn options (rounds @ (Returns \<lparr>success = False, error = None\<rparr>, yes) # rest) s"
proof (rule conjI[OF impI conjI[OF impI]])
  assume a: "connect conn options script s = Some (result, s') \<and> \<not> success result"
  define s0 where "s0 = emit OutputClear s"
  from a obtain s1 where loop: "connect_loop conn (reconnecting options) script s0 = Some (result, s1)"
    and s': "s' = dispose conn s1"
    by (auto simp: connect_def s0_def split: option.splits)
  from connect_loop_rounds[OF loop] a
  obtain m pre0 where r: "trace m = trace s0 @ pre0" "Fire connected \<notin> set pre0"
    "s1 = disconnect m \<or> s1 = emit (ShowWarningMessage ''Could not reconnect'') (disconnect m)"
    by blast
  have c1: "connection s1 = None" "storageConnectionName s1 = []"
    using r(3) by (auto simp: fields_disconnect)
  have "count_list (trace s1) (Fire connected) = count_list (trace m) (Fire connected)"
    using r(3) by (auto simp: trace_disconnect count_list_app split: option.splits)
  also have "\<dots> = count_list (trace s) (Fire connected)"
    using r(2) by (simp add: r(1) s0_def count_list_app count_list_absent)
  finally have c2: "count_list (trace s1) (Fire connected) = count_list (trace s) (Fire connected)" .
  show "hid conn \<in> disposed s' \<and> (\<exists>t. trace s' = t @ [Dispose (hid conn)]) \<and>
      connection s' = None \<and> getConnection s' = None \<and> storageConnectionName s' = [] \<and>
      count_list (trace s') (Fire connected) = count_list (trace s) (Fire connected)"
    using c1 c2 by (simp add: s' dispose_def getConnection_def count_list_app)
next
  assume "reconnecting options = Some True \<longrightarrow> \<not> yes"
  then show "\<exists>s''. connect conn options ((Throws e, yes) # rest) s =
         Some (\<lparr>success = False, error = None\<rparr>, s'')"
    by (auto simp: connect_def Let_def)
next
  show "connect conn options (rounds @ (Throws e, yes) # rest) s =
     connect conn options (rounds @ (Returns \<lparr>success = False, error = None\<rparr>, yes) # rest) s"
    by (simp add: connect_def connect_loop_throw)
qed

theorem connect_failure_witness:
  "\<exists>s'. connect example_new \<lparr>reconnecting = None\<rparr> [(Throws ''timeout'', False)]
          example_connected = Some (\<lparr>success = False, error = None\<rparr>, s') \<and>
        2 \<in> disposed s' \<and> connection s' = None \<and>
        count_list (trace s') (Fire connected) = 1"
proof -
  obtain s' where run: "connect example_new \<lparr>reconnecting = None\<rparr> [(Throws ''timeout'', False)]
          example_connected = Some (\<lparr>success = False, error = None\<rparr>, s')"
    by (simp add: connect_def Let_def)
  from connect_failure [of example_new "\<lparr>reconnecting = None\<rparr>" "[(Throws ''timeout'', False)]"
      example_connected "\<lparr>success = False, error = None\<rparr>" s' False "''timeout''" "[]" "[]"]
  show ?thesis
    using run by (auto simp: example_connected_fields example_new_def)
qed

subsection \<open>C4\<close>



subsection \<open>C5\<close>

text \<open>
  C5. A disconnect request issued while at least one open document backed by the
  connection has unsaved changes does not proceed: the guarded \<open>disconnect\<close> of
  \<open>instantiate.ts\<close> returns \<open>false\<close> and leaves the instance as it was but for the
  trace; what it adds to the trace concerns the editor window only (no handle is disposed
  or ended, \<open>this.connection\<close> is not assigned, no event is fired), and the error
  message is shown exactly once.
\<close>

theorem unsaved_blocks_disconnect:
  assumes "\<exists>d \<in> set documents. unsaved d"
  shows "\<exists>t. instantiate_disconnect documents s = (False, s\<lparr>trace := trace s @ t\<rparr>) \<and>
     connection (snd (instantiate_disconnect documents s)) = connection s \<and>
     disposed (snd (instantiate_disconnect documents s)) = disposed s \<and>
     (\<forall>e \<in> set t. editor_effect e) \<and>
     (\<forall>h. Dispose h \<notin> set t \<and> End h \<notin> set t) \<and> (\<forall>ev. Fire ev \<notin> set t) \<and>
     AssignConnection None \<notin> set t \<and>
     count_list t (ShowErrorMessage ''Cannot disconnect while files have not been saved.'') = 1"
proof -
  from check_documents_effects[of documents True s] assms
  obtain t where t: "check_documents documents True s = (False, s\<lparr>trace := trace s @ t\<rparr>)"
    "\<forall>e \<in> set t. editor_effect e"
    "count_list t (ShowErrorMessage ''Cannot disconnect while files have not been saved.'') = 1"
    by auto
  have "instantiate_disconnect documents s = (False, s\<lparr>trace := trace s @ t\<rparr>)"
    by (simp add: instantiate_disconnect_def t(1))
  moreover have "\<forall>h. Dispose h \<notin> set t \<and> End h \<notin> set t" "\<forall>ev. Fire ev \<notin> set t"
    "AssignConnection None \<notin> set t"
    using t(2) by auto
  ultimately show ?thesis using t(2,3) by (intro exI[of _ t]) simp
qed

theorem unsaved_blocks_disconnect_witness:
  "\<exists>t. instantiate_disconnect example_documents example_connected =
          (False, example_connected\<lparr>trace := trace example_connected @ t\<rparr>) \<and>
        connection (snd (instantiate_disconnect example_documents example_connected)) =
          Some example_old \<and>
        (\<forall>h. Dispose h \<notin> set t \<and> End h \<notin> set t) \<and> (\<forall>ev. Fire ev \<notin> set t) \<and>
        count_list t (ShowErrorMessage ''Cannot disconnect while files have not been saved.'') = 1"
  using unsaved_blocks_disconnect [of example_documents example_connected]
  by (simp add: example_documents_def unsaved_def example_connected_fields) blast

subsection \<open>C6\<close>

text \<open>
  C6. An entry registered with the transient flag is removed from the collection of its
  event kind when the function has been invoked and has returned or thrown, and the
  documentation of \<open>subscribe\<close> says of a transient function that it \<open>will only be
  executed once during the lifetime of a connection\<close>. That holds of fires that follow one
  another (\<open>transient_removed_between_fires\<close>). It fails of fires that overlap:
  \<open>fire\<close> does not wait for \<open>processEvent\<close>, whose run is suspended at
  \<open>await callable.func()\<close> with the entry still registered, since the \<open>finally\<close> block
  that deletes it comes after the \<open>await\<close>; the run that a second fire of the same
  event kind starts in the meantime finds the entry and calls its function again.

  The functions make no registry call and return (\<open>quiet_funcs\<close>).

  \<^item> On the instance whose only entry is the transient \<open>ext.b - notify\<close>, two fires of
    \<open>connected\<close> one right after the other have called the function twice before either
    run resumes.
  \<^item> When the two runs have resumed, both have ended; the first \<open>finally\<close> block has
    emptied the slot and the second has found nothing to delete.
  \<^item> In the scenario of the spec (\<open>refresh\<close> stays, \<open>notify\<close> is transient), two fires
    one right after the other whose runs resume in turn call the function of \<open>notify\<close>
    twice.
  \<^item> When the second fire is issued after the run of the first has ended, the function is
    called once.
\<close>

theorem overlapping_fires_invoke_transient_twice:
  "trace (snd (interleaved quiet_funcs [Fires connected, Fires connected]
      ([], transient_instance))) =
     [Fire connected, ConsoleTimeEvent connected, ConsoleTime ''ext.b - notify'', Invoke 0,
      Fire connected, ConsoleTimeEvent connected, ConsoleTime ''ext.b - notify'', Invoke 0] \<and>
   (case interleaved quiet_funcs [Fires connected, Fires connected, Resumes 0, Resumes 1]
      ([], transient_instance)
    of (runs, s) \<Rightarrow> (runs, trace s, eventSubscribers s connected)) =
     ([None, None],
      [Fire connected, ConsoleTimeEvent connected, ConsoleTime ''ext.b - notify'', Invoke 0,
       Fire connected, ConsoleTimeEvent connected, ConsoleTime ''ext.b - notify'', Invoke 0,
       ConsoleTimeEnd ''ext.b - notify'', ConsoleTimeEndEvent connected,
       ConsoleTimeEnd ''ext.b - notify'', ConsoleTimeEndEvent connected],
      [None]) \<and>
   (case interleaved quiet_funcs
        [Fires connected, Fires connected, Resumes 0, Resumes 1, Resumes 0, Resumes 1]
        ([], example_instance)
    of (runs, s) \<Rightarrow> (runs, trace s, eventSubscribers s connected)) =
     ([None, None],
      [Fire connected, ConsoleTimeEvent connected, ConsoleTime ''ext.a - refresh'', Invoke 0,
       Fire connected, ConsoleTimeEvent connected, ConsoleTime ''ext.a - refresh'', Invoke 0,
       ConsoleTimeEnd ''ext.a - refresh'', ConsoleTime ''ext.b - notify'', Invoke 1,
       ConsoleTimeEnd ''ext.a - refresh'', ConsoleTime ''ext.b - notify'', Invoke 1,
       ConsoleTimeEnd ''ext.b - notify'', ConsoleTimeEndEvent connected,
       ConsoleTimeEnd ''ext.b - notify'', ConsoleTimeEndEvent connected],
      [Some (''ext.a - refresh'', \<lparr>func = 0, transient = None\<rparr>), None]) \<and>
   (case interleaved quiet_funcs [Fires connected, Resumes 0, Fires connected]
      ([], transient_instance)
    of (runs, s) \<Rightarrow> (runs, trace s, eventSubscribers s connected)) =
     ([None, None],
      [Fire connected, ConsoleTimeEvent connected, ConsoleTime ''ext.b - notify'', Invoke 0,
       ConsoleTimeEnd ''ext.b - notify'', ConsoleTimeEndEvent connected,
       Fire connected, ConsoleTimeEvent connected, ConsoleTimeEndEvent connected],
      [None])"
proof (intro conjI)
  note defs = processEvent_start_def processEvent_advance_def processEvent_resume_def
    fire_def eventSubscribers_def getSubscribers_def emit_def invoke_def subscribe_def
    set_subscriber_def delete_subscriber_def subscription_key_def Let_def new_Instance_def
    quiet_funcs_def
  show "trace (snd (interleaved quiet_funcs [Fires connected, Fires connected]
      ([], transient_instance))) =
     [Fire connected, ConsoleTimeEvent connected, ConsoleTime ''ext.b - notify'', Invoke 0,
      Fire connected, ConsoleTimeEvent connected, ConsoleTime ''ext.b - notify'', Invoke 0]"
    by (simp add: transient_instance_def defs)
  show "(case interleaved quiet_funcs [Fires connected, Fires connected, Resumes 0, Resumes 1]
      ([], transient_instance)
    of (runs, s) \<Rightarrow> (runs, trace s, eventSubscribers s connected)) =
     ([None, None],
      [Fire connected, ConsoleTimeEvent connected, ConsoleTime ''ext.b - notify'', Invoke 0,
       Fire connected, ConsoleTimeEvent connected, ConsoleTime ''ext.b - notify'', Invoke 0,
       ConsoleTimeEnd ''ext.b - notify'', ConsoleTimeEndEvent connected,
       ConsoleTimeEnd ''ext.b - notify'', ConsoleTimeEndEvent connected],
      [None])"
    by (simp add: transient_instance_def defs)
  show "(case interleaved quiet_funcs
        [Fires connected, Fires connected, Resumes 0, Resumes 1, Resumes 0, Resumes 1]
        ([], example_instance)
    of (runs, s) \<Rightarrow> (runs, trace s, eventSubscribers s connected)) =
     ([None, None],
      [Fire connected, ConsoleTimeEvent connected, ConsoleTime ''ext.a - refresh'', Invoke 0,
       Fire connected, ConsoleTimeEvent connected, ConsoleTime ''ext.a - refresh'', Invoke 0,
       ConsoleTimeEnd ''ext.a - refresh'', ConsoleTime ''ext.b - notify'', Invoke 1,
       ConsoleTimeEnd ''ext.a - refresh'', ConsoleTime ''ext.b - notify'', Invoke 1,
       ConsoleTimeEnd ''ext.b - notify'', ConsoleTimeEndEvent connected,
       ConsoleTimeEnd ''ext.b - notify'', ConsoleTimeEndEvent connected],
      [Some (''ext.a - refresh'', \<lparr>func = 0, transient = None\<rparr>), None])"
    by (simp add: example_instance_def subscribe_all_def example_calls_def defs)
  show "(case interleaved quiet_funcs [Fires connected, Resumes 0, Fires connected]
      ([], transient_instance)
    of (runs, s) \<Rightarrow> (runs, trace s, eventSubscribers s connected)) =
     ([None, None],
      [Fire connected, ConsoleTimeEvent connected, ConsoleTime ''ext.b - notify'', Invoke 0,
       ConsoleTimeEnd ''ext.b - notify'', ConsoleTimeEndEvent connected,
       Fire connected, ConsoleTimeEvent connected, ConsoleTimeEndEvent connected],
      [None])"
    by (simp add: transient_instance_def defs)
qed

subsection \<open>C7\<close>

text \<open>
  C7. A handler that raises a fault during a fire is caught and logged with its identity
  (\<open>ConsoleError event k\<close>), the handlers ordered after it in the same fire still run,
  and the fault does not leave \<open>processEvent\<close>, which returns normally.

  \<^item> Whatever the handlers do: when the loop stands at slot \<open>i\<close>, the function of the
    entry there throws, and the loop ends, then the fault has been logged with the
    identity of the entry and every entry registered behind slot \<open>i\<close> has been invoked
    after that, in order.
  \<^item> When the handlers make no registry calls, the run ends and its trace is the blocks
    of the entries before, the block of the failing entry with its \<open>ConsoleError\<close>, and
    the blocks of the entries after it.
\<close>

theorem failing_handler_isolated:
  assumes "distinct (live_keys (eventSubscribers s event))"
  shows "(\<forall>n i k v s'. processEvent_loop n F event i s = Some s' \<and>
            i < length (eventSubscribers s event) \<and>
            eventSubscribers s event ! i = Some (k, v) \<and> raises (F (func v)) \<longrightarrow>
            (\<exists>ws t rest. trace s' = trace s @ [ConsoleTime k, Invoke (func v)] @ ws @
                 [ConsoleError event k] @ t \<and> identities ws = [] \<and>
               identities t = live_keys (drop (Suc i) (eventSubscribers s event)) @ rest)) \<and>
         ((\<forall>e \<in> set (entries (eventSubscribers s event)). calls (F (func (snd e))) = []) \<and>
          length (eventSubscribers s event) < n \<and>
          entries (eventSubscribers s event) = before @ (k, v) # after \<and> raises (F (func v)) \<longrightarrow>
            (\<exists>s'. processEvent n F event s = Some s' \<and>
               trace s' = trace s @ ConsoleTimeEvent event #
                 concat (map (entry_trace F event) before) @
                 [ConsoleTime k, Invoke (func v), ConsoleError event k] @
                 concat (map (entry_trace F event) after) @
                 [ConsoleTimeEndEvent event]))"
proof (intro conjI allI impI)
  fix n i k v s'
  assume a: "processEvent_loop n F event i s = Some s' \<and>
            i < length (eventSubscribers s event) \<and>
            eventSubscribers s event ! i = Some (k, v) \<and> raises (F (func v))"
  let ?m = "eventSubscribers s event"
  have sub: "subscribers s event = Some ?m"
    using a by (auto simp: eventSubscribers_def split: option.splits)
  obtain n' where n': "n = Suc n'" using a by (cases n) auto
  from loop_step[OF sub assms, of i k v n' F] a
  obtain s4 ws m4 ext where st:
    "processEvent_loop (Suc n') F event i s = processEvent_loop n' F event (Suc i) s4"
    "trace s4 = trace s @ [ConsoleTime k, Invoke (func v)] @ ws @ [ConsoleError event k]"
    "identities ws = []" "subscribers s4 event = Some m4" "distinct (live_keys m4)"
    "live_keys (drop (Suc i) m4) = live_keys (drop (Suc i) ?m) @ ext"
    by auto
  have run: "processEvent_loop (Suc n') F event i s = Some s'" using a unfolding n' by blast
  have "processEvent_loop n' F event (Suc i) s4 = Some s'" using run unfolding st(1) .
  from loop_visits_registered[OF this st(4,5)] obtain t rest where
    t: "trace s' = trace s4 @ t" "identities t = live_keys (drop (Suc i) m4) @ rest" by blast
  have "trace s' = trace s @ [ConsoleTime k, Invoke (func v)] @ ws @ [ConsoleError event k] @ t"
    by (simp add: t(1) st(2))
  moreover have "identities t = live_keys (drop (Suc i) ?m) @ (ext @ rest)"
    by (simp add: t(2) st(6))
  ultimately show "\<exists>ws t rest. trace s' = trace s @ [ConsoleTime k, Invoke (func v)] @ ws @
                 [ConsoleError event k] @ t \<and> identities ws = [] \<and>
               identities t = live_keys (drop (Suc i) (eventSubscribers s event)) @ rest"
    using st(3) by blast
next
  assume b: "(\<forall>e \<in> set (entries (eventSubscribers s event)). calls (F (func (snd e))) = []) \<and>
          length (eventSubscribers s event) < n \<and>
          entries (eventSubscribers s event) = before @ (k, v) # after \<and> raises (F (func v))"
  have "processEvent n F event s =
     Some (s\<lparr>subscribers := (subscribers s)(event \<mapsto> sweep (eventSubscribers s event)),
             trace := trace s @ ConsoleTimeEvent event #
               concat (map (entry_trace F event) (entries (eventSubscribers s event))) @
               [ConsoleTimeEndEvent event]\<rparr>)"
    using assms b by (intro processEvent_pure) auto
  then show "\<exists>s'. processEvent n F event s = Some s' \<and>
               trace s' = trace s @ ConsoleTimeEvent event #
                 concat (map (entry_trace F event) before) @
                 [ConsoleTime k, Invoke (func v), ConsoleError event k] @
                 concat (map (entry_trace F event) after) @
                 [ConsoleTimeEndEvent event]"
    using b by (simp add: entry_trace_def)
qed

theorem failing_handler_isolated_witness:
  "(\<exists>s'. processEvent 4 example_funcs connected
       (subscribe ''ext.c'' connected ''last'' 2 None example_instance) = Some s' \<and>
     trace s' =
       [ConsoleTimeEvent connected,
        ConsoleTime ''ext.a - refresh'', Invoke 0, ConsoleTimeEnd ''ext.a - refresh'',
        ConsoleTime ''ext.b - notify'', Invoke 1, ConsoleError connected ''ext.b - notify'',
        ConsoleTime ''ext.c - last'', Invoke 2, ConsoleTimeEnd ''ext.c - last'',
        ConsoleTimeEndEvent connected]) \<and>
   (\<exists>s' ws t rest. processEvent_loop 3 resubscribing_funcs connected 0 example_instance = Some s' \<and>
      trace s' = [ConsoleTime ''ext.a - refresh'', Invoke 0] @ ws @
        [ConsoleError connected ''ext.a - refresh''] @ t \<and>
      identities ws = [] \<and> identities t = [''ext.b - notify''] @ rest)"
proof
  show "\<exists>s'. processEvent 4 example_funcs connected
       (subscribe ''ext.c'' connected ''last'' 2 None example_instance) = Some s' \<and>
     trace s' =
       [ConsoleTimeEvent connected,
        ConsoleTime ''ext.a - refresh'', Invoke 0, ConsoleTimeEnd ''ext.a - refresh'',
        ConsoleTime ''ext.b - notify'', Invoke 1, ConsoleError connected ''ext.b - notify'',
        ConsoleTime ''ext.c - last'', Invoke 2, ConsoleTimeEnd ''ext.c - last'',
        ConsoleTimeEndEvent connected]"
    using failing_handler_isolated [where
        s = "subscribe ''ext.c'' connected ''last'' 2 None example_instance"
        and event = connected and F = example_funcs and n = 4
        and before = "[(''ext.a - refresh'', \<lparr>func = 0, transient = None\<rparr>)]"
        and k = "''ext.b - notify''" and v = "\<lparr>func = 1, transient = Some True\<rparr>"
        and after = "[(''ext.c - last'', \<lparr>func = 2, transient = None\<rparr>)]"]
    by (simp add: subscribe_def eventSubscribers_set_subscriber trace_set_subscriber
        example_instance_eventSubscribers example_instance_trace live_keys_def
        example_funcs_def entry_trace_def subscription_key_def)
next
  obtain s' where run: "processEvent_loop 3 resubscribing_funcs connected 0 example_instance = Some s'"
    by (simp add: numeral_3_eq_3 example_instance_subscribers run_defs resubscribing_funcs_def)
  have at: "processEvent_loop 3 resubscribing_funcs connected 0 example_instance = Some s' \<and>
      0 < length (eventSubscribers example_instance connected) \<and>
      eventSubscribers example_instance connected ! 0 =
        Some (''ext.a - refresh'', \<lparr>func = 0, transient = None\<rparr>) \<and>
      raises (resubscribing_funcs (func \<lparr>func = 0, transient = None\<rparr>))"
    using run by (simp add: example_instance_eventSubscribers resubscribing_funcs_def)
  from failing_handler_isolated [OF example_instance_well_formed, THEN conjunct1, rule_format, OF at]
  show "\<exists>s' ws t rest. processEvent_loop 3 resubscribing_funcs connected 0 example_instance = Some s' \<and>
      trace s' = [ConsoleTime ''ext.a - refresh'', Invoke 0] @ ws @
        [ConsoleError connected ''ext.a - refresh''] @ t \<and>
      identities ws = [] \<and> identities t = [''ext.b - notify''] @ rest"
    using run by (simp add: example_instance_eventSubscribers example_instance_trace live_keys_def)
qed

subsection \<open>C8\<close>

text \<open>
  C8. Subscribing again with a key that is already registered for the event kind
  replaces the stored handler without changing the position of the entry and without
  creating a second entry, and a fire that starts on the collection as the call has left
  it invokes the new handler once, at the old position
  (\<open>subscribe_again_in_place\<close>). The last part of the claim, that a subsequent fire
  invokes the latest handler, fails on the code when the call is made by the function of a
  transient entry, for the key of that entry, while the fire invokes it: the \<open>finally\<close>
  block reads the transient flag of the object that the iterator took from the map before
  the call, and deletes by key, so it removes the entry that has just replaced it, which
  is not transient. The documentation of \<open>subscribe\<close> says that the function is executed
  when the event is triggered, and that only a function subscribed with \<open>transient\<close>
  \<open>true\<close> is executed once.

  In the scenario of the spec, let the function of the transient \<open>ext.b - notify\<close>
  subscribe the function \<open>2\<close> under that same key, without the transient flag
  (\<open>replacing_funcs\<close>).

  \<^item> When the function \<open>1\<close> is called, its call of \<open>subscribe\<close> replaces the entry in
    place: the collection holds \<open>ext.b - notify\<close> with the function \<open>2\<close>, not transient,
    at the second position.
  \<^item> When the fire has ended, the collection holds \<open>ext.a - refresh\<close> only.
  \<^item> The fire that follows invokes \<open>ext.a - refresh\<close> only; the function \<open>2\<close> is never
    invoked.
  \<^item> The same call of \<open>subscribe\<close> made before the fire has the fire invoke the function
    \<open>2\<close> at the second position.
\<close>

theorem transient_resubscription_removed:
  "entries (eventSubscribers
      (snd (invoke replacing_funcs 1 example_instance)) connected) =
     [(''ext.a - refresh'', \<lparr>func = 0, transient = None\<rparr>),
      (''ext.b - notify'', \<lparr>func = 2, transient = None\<rparr>)] \<and>
   map_option (\<lambda>s. entries (eventSubscribers s connected))
     (processEvent 3 replacing_funcs connected example_instance) =
     Some [(''ext.a - refresh'', \<lparr>func = 0, transient = None\<rparr>)] \<and>
   map_option trace
     (Option.bind (processEvent 3 replacing_funcs connected example_instance)
        (processEvent 3 replacing_funcs connected)) =
     Some [ConsoleTimeEvent connected,
        ConsoleTime ''ext.a - refresh'', Invoke 0, ConsoleTimeEnd ''ext.a - refresh'',
        ConsoleTime ''ext.b - notify'', Invoke 1, ConsoleTimeEnd ''ext.b - notify'',
        ConsoleTimeEndEvent connected,
        ConsoleTimeEvent connected,
        ConsoleTime ''ext.a - refresh'', Invoke 0, ConsoleTimeEnd ''ext.a - refresh'',
        ConsoleTimeEndEvent connected] \<and>
   map_option trace
     (processEvent 3 replacing_funcs connected
        (subscribe ''ext.b'' connected ''notify'' 2 None example_instance)) =
     Some [ConsoleTimeEvent connected,
        ConsoleTime ''ext.a - refresh'', Invoke 0, ConsoleTimeEnd ''ext.a - refresh'',
        ConsoleTime ''ext.b - notify'', Invoke 2, ConsoleTimeEnd ''ext.b - notify'',
        ConsoleTimeEndEvent connected]"
  by (simp add: numeral_3_eq_3 example_instance_subscribers run_defs replacing_funcs_def
      example_instance_trace)

subsection \<open>C9\<close>




subsection \<open>C10\<close>

text \<open>
  C10. Every call of \<open>onEvent\<close> adds a new entry, under a key built from the name of
  the function and the counter, to the same per-event map that \<open>subscribe\<close> uses; it
  never replaces an entry. Registering the same function twice gives two entries with
  different keys, and both are invoked on every later fire.

  The hypothesis \<open>counter_ahead\<close> says that no key that \<open>onEvent\<close> has yet to hand out
  is registered already. It holds of a new instance, and \<open>onEvent\<close> and \<open>subscribe\<close>
  keep it (\<open>counter_ahead_new_Instance\<close>, \<open>counter_ahead_onEvent\<close>,
  \<open>counter_ahead_subscribe\<close>), the latter for owner keys that are extension identifiers.
  About the fires, in a map whose keys are distinct: when the functions make no registry
  calls, every one of any number of fires invokes both entries, after the entries that
  were there; and whatever the functions do, a fire that ends has invoked the entries that
  were there and then the two new ones, in this order, before any other.
\<close>

theorem onEvent_adds_fresh_entry:
  assumes "counter_ahead s"
  shows "deprecated_key (fname (F f)) (deprecationCount s) \<notin> set (live_keys (eventSubscribers s event)) \<and>
    deprecated_key (fname (F f)) (deprecationCount s) \<noteq> deprecated_key (fname (F f)) (Suc (deprecationCount s)) \<and>
    entries (eventSubscribers (onEvent F event f s) event) =
      entries (eventSubscribers s event) @
        [(deprecated_key (fname (F f)) (deprecationCount s), \<lparr>func = f, transient = None\<rparr>)] \<and>
    entries (eventSubscribers (onEvent F event f (onEvent F event f s)) event) =
      entries (eventSubscribers s event) @
        [(deprecated_key (fname (F f)) (deprecationCount s), \<lparr>func = f, transient = None\<rparr>),
         (deprecated_key (fname (F f)) (Suc (deprecationCount s)), \<lparr>func = f, transient = None\<rparr>)] \<and>
    counter_ahead (onEvent F event f (onEvent F event f s)) \<and>
    (distinct (live_keys (eventSubscribers s event)) \<and>
     (\<forall>e \<in> set (entries (eventSubscribers s event)). calls (F (func (snd e))) = []) \<and>
     calls (F f) = [] \<and> length (eventSubscribers s event) + 2 < n \<longrightarrow>
     (\<forall>j. \<exists>s'. processEvent_times (Suc j) n F event (onEvent F event f (onEvent F event f s)) = Some s' \<and>
        trace s' = trace s @ [ConsoleWarn, ConsoleWarn] @
          fire_trace F event (entries (eventSubscribers s event) @
            [(deprecated_key (fname (F f)) (deprecationCount s), \<lparr>func = f, transient = None\<rparr>),
             (deprecated_key (fname (F f)) (Suc (deprecationCount s)), \<lparr>func = f, transient = None\<rparr>)]) @
          concat (replicate j (fire_trace F event (filter stays (entries (eventSubscribers s event)) @
            [(deprecated_key (fname (F f)) (deprecationCount s), \<lparr>func = f, transient = None\<rparr>),
             (deprecated_key (fname (F f)) (Suc (deprecationCount s)), \<lparr>func = f, transient = None\<rparr>)]))))) \<and>
    (distinct (live_keys (eventSubscribers s event)) \<longrightarrow>
     (\<forall>m s'. processEvent m F event (onEvent F event f (onEvent F event f s)) = Some s' \<longrightarrow>
        (\<exists>t rest. trace s' = trace s @ [ConsoleWarn, ConsoleWarn] @
             ConsoleTimeEvent event # t @ [ConsoleTimeEndEvent event] \<and>
           identities t = live_keys (eventSubscribers s event) @
             [deprecated_key (fname (F f)) (deprecationCount s),
              deprecated_key (fname (F f)) (Suc (deprecationCount s))] @ rest)))"
proof -
  let ?m = "eventSubscribers s event"
  let ?k1 = "deprecated_key (fname (F f)) (deprecationCount s)"
  let ?k2 = "deprecated_key (fname (F f)) (Suc (deprecationCount s))"
  let ?e1 = "(?k1, \<lparr>func = f, transient = None\<rparr>)"
  let ?e2 = "(?k2, \<lparr>func = f, transient = None\<rparr>)"
  let ?s1 = "onEvent F event f s"
  let ?s2 = "onEvent F event f ?s1"
  have f1: "?k1 \<notin> set (live_keys ?m)" using assms by (intro counter_ahead_fresh) simp_all
  have ne: "?k1 \<noteq> ?k2" using deprecated_key_inject[of _ "deprecationCount s" _ "Suc (deprecationCount s)"] by auto
  have a1: "counter_ahead ?s1" using assms by (rule counter_ahead_onEvent)
  have a2: "counter_ahead ?s2" using a1 by (rule counter_ahead_onEvent)
  have m1: "eventSubscribers ?s1 event = map_set ?m ?k1 \<lparr>func = f, transient = None\<rparr>"
    by (simp add: eventSubscribers_onEvent)
  have e1: "entries (eventSubscribers ?s1 event) = entries ?m @ [?e1]"
    using f1 by (simp add: m1 entries_map_set_fresh)
  have f2: "?k2 \<notin> set (live_keys (eventSubscribers ?s1 event))"
    using a1 by (intro counter_ahead_fresh) (simp_all add: deprecationCount_onEvent)
  have m2: "eventSubscribers ?s2 event = map_set (eventSubscribers ?s1 event) ?k2 \<lparr>func = f, transient = None\<rparr>"
    by (simp add: eventSubscribers_onEvent deprecationCount_onEvent)
  have e2: "entries (eventSubscribers ?s2 event) = entries ?m @ [?e1, ?e2]"
    using f2 by (simp add: m2 entries_map_set_fresh e1)
  have fires: "\<exists>s'. processEvent_times (Suc j) n F event ?s2 = Some s' \<and>
        trace s' = trace s @ [ConsoleWarn, ConsoleWarn] @
          fire_trace F event (entries ?m @ [?e1, ?e2]) @
          concat (replicate j (fire_trace F event (filter stays (entries ?m) @ [?e1, ?e2])))"
    if d: "distinct (live_keys ?m)"
      and pure: "\<forall>e \<in> set (entries ?m). calls (F (func (snd e))) = []"
      and pf: "calls (F f) = []" and len: "length ?m + 2 < n" for j
  proof -
    have d2: "distinct (live_keys (eventSubscribers ?s2 event))"
      using d f1 ne f2 by (simp add: live_keys_def e1 e2)
    have p2: "\<forall>e \<in> set (entries (eventSubscribers ?s2 event)). calls (F (func (snd e))) = []"
      using pure pf by (auto simp: e2)
    have l2: "length (eventSubscribers ?s2 event) < n"
      using len length_map_set_le[of ?m ?k1 "\<lparr>func = f, transient = None\<rparr>"]
        length_map_set_le[of "eventSubscribers ?s1 event" ?k2 "\<lparr>func = f, transient = None\<rparr>"]
      unfolding m2 m1 by linarith
    show ?thesis
      unfolding processEvent_times_pure[OF d2 p2 l2, of j]
      by (simp add: e2 trace_onEvent stays_def)
  qed
  have visits: "\<exists>t rest. trace s' = trace s @ [ConsoleWarn, ConsoleWarn] @
             ConsoleTimeEvent event # t @ [ConsoleTimeEndEvent event] \<and>
           identities t = live_keys ?m @ [?k1, ?k2] @ rest"
    if d: "distinct (live_keys ?m)" and run: "processEvent m F event ?s2 = Some s'" for m s'
  proof -
    have d2: "distinct (live_keys (eventSubscribers ?s2 event))"
      using d f1 ne f2 by (simp add: live_keys_def e1 e2)
    from processEvent_visits_registered[OF run d2] show ?thesis
      by (simp add: live_keys_def e2 trace_onEvent)
  qed
  show ?thesis using f1 ne e1 e2 a2 fires visits by (simp only: simp_thms) blast
qed

theorem onEvent_adds_fresh_entry_witness:
  "entries (eventSubscribers
       (onEvent example_funcs connected 0 (onEvent example_funcs connected 0 new_Instance)) connected) =
     [(''deprecated - f1_0'', \<lparr>func = 0, transient = None\<rparr>),
      (''deprecated - f1_1'', \<lparr>func = 0, transient = None\<rparr>)] \<and>
   (\<forall>j. \<exists>s'. processEvent_times (Suc j) 3 example_funcs connected
        (onEvent example_funcs connected 0 (onEvent example_funcs connected 0 new_Instance)) = Some s' \<and>
      trace s' = [ConsoleWarn, ConsoleWarn] @
        concat (replicate (Suc j)
          [ConsoleTimeEvent connected,
           ConsoleTime ''deprecated - f1_0'', Invoke 0, ConsoleTimeEnd ''deprecated - f1_0'',
           ConsoleTime ''deprecated - f1_1'', Invoke 0, ConsoleTimeEnd ''deprecated - f1_1'',
           ConsoleTimeEndEvent connected]))"
  using onEvent_adds_fresh_entry [OF counter_ahead_new_Instance, of example_funcs 0 connected 3]
  by (simp add: new_Instance_fields live_keys_def example_deprecated_keys
      fire_trace_def entry_trace_def stays_def)
     (simp add: example_funcs_def)

end
